theory Spec2Isabelle
  imports Main
begin

section \<open>Data model (parser.ts, lines 20-54)\<close>

text \<open>
  The closed set of decoration type tags of \<^verbatim>\<open>DecorationRange["type"]\<close>.
\<close>

datatype dtype =
    Hide | Bold | Italic | BoldItalic | Strikethrough | Code | CodeBlock | Blockquote
  | Heading | Heading1 | Heading2 | Heading3 | Heading4 | Heading5 | Heading6
  | Link | Image | HorizontalRule | Highlight

text \<open>
  \<^verbatim>\<open>DecorationRange\<close>: offsets are JavaScript numbers; they are computed by integer
  additions and subtractions from integer offsets, so they are modelled as \<open>int\<close>
  (a subtraction such as \<^verbatim>\<open>endOffset - 2\<close> may go below zero).
\<close>

record DecorationRange =
  startPos :: int
  endPos :: int
  dtype :: dtype
  level :: "int option"

definition mk :: "dtype \<Rightarrow> int \<Rightarrow> int \<Rightarrow> DecorationRange" where
  "mk t s e = \<lparr>startPos = s, endPos = e, dtype = t, level = None\<rparr>"

text \<open>
  A syntax node of the external parser: its type tag, its optional position (each of the
  two offsets may itself be undefined or null), its optional children and, for headings,
  the depth.
\<close>

datatype node = Node (ntype: string) (position: "(int option \<times> int option) option")
  (children: "node list option") (depth: int)

section \<open>JavaScript string primitives\<close>

text \<open>
  The text is a list of code units. \<^verbatim>\<open>text[i]\<close> is undefined out of range, which is
  \<open>None\<close> here; it is different from every one-character string.
\<close>

definition charAt :: "string \<Rightarrow> int \<Rightarrow> char option" where
  "charAt text i = (if 0 \<le> i \<and> i < int (length text) then Some (text ! nat i) else None)"

text \<open>
  \<^verbatim>\<open>String.prototype.substring(a, b)\<close>: both arguments are clamped to
  \<open>[0, length]\<close> and swapped when the first is larger.
\<close>

definition clamp :: "string \<Rightarrow> int \<Rightarrow> nat" where
  "clamp text i = nat (min (max i 0) (int (length text)))"

definition substring :: "string \<Rightarrow> int \<Rightarrow> int \<Rightarrow> string" where
  "substring text a b =
     (let from = min (clamp text a) (clamp text b); to = max (clamp text a) (clamp text b)
      in take (to - from) (drop from text))"

text \<open>
  \<^verbatim>\<open>String.prototype.indexOf(pat, pos)\<close>: the least index at or after the clamped
  position where the pattern occurs, or \<open>-1\<close>.
\<close>

fun find_sub :: "string \<Rightarrow> string \<Rightarrow> nat option" where
  "find_sub pat [] = (if pat = [] then Some 0 else None)"
| "find_sub pat (c # cs) =
     (if take (length pat) (c # cs) = pat then Some 0 else map_option Suc (find_sub pat cs))"

definition indexOf :: "string \<Rightarrow> string \<Rightarrow> int \<Rightarrow> int" where
  "indexOf text pat pos =
     (case find_sub pat (drop (clamp text pos) text) of
        None \<Rightarrow> -1
      | Some k \<Rightarrow> int (clamp text pos + k))"

lemma find_sub_bound: "find_sub pat s = Some k \<Longrightarrow> k + length pat \<le> length s"
proof (induction s arbitrary: k)
  case Nil
  then show ?case by (simp split: if_splits)
next
  case (Cons c cs)
  show ?case
  proof (cases "take (length pat) (c # cs) = pat")
    case True
    then have "length (take (length pat) (c # cs)) = length pat" by simp
    then have "length pat \<le> length (c # cs)" by simp
    with True Cons.prems show ?thesis by simp
  next
    case False
    with Cons.prems obtain j where "find_sub pat cs = Some j" "k = Suc j" by auto
    with Cons.IH show ?thesis by fastforce
  qed
qed

lemma indexOf_lower: "indexOf text pat pos \<noteq> -1 \<Longrightarrow> pos \<le> int (length text) \<Longrightarrow> pos \<le> indexOf text pat pos"
  by (auto simp: indexOf_def clamp_def split: option.splits)

lemma indexOf_upper:
  "indexOf text pat pos \<noteq> -1 \<Longrightarrow> indexOf text pat pos + int (length pat) \<le> int (length text)"
proof -
  assume a: "indexOf text pat pos \<noteq> -1"
  then obtain k where k: "find_sub pat (drop (clamp text pos) text) = Some k"
    by (auto simp: indexOf_def split: option.splits)
  from find_sub_bound[OF k] have "k + length pat \<le> length text - clamp text pos" by simp
  moreover have "clamp text pos \<le> length text" by (simp add: clamp_def)
  ultimately have "clamp text pos + k + length pat \<le> length text" by linarith
  with k show ?thesis by (simp add: indexOf_def)
qed

lemma indexOf_nonneg: "indexOf text pat pos \<noteq> -1 \<Longrightarrow> 0 \<le> indexOf text pat pos"
  by (auto simp: indexOf_def split: option.splits)

section \<open>Manual scanner: HighlightHandler (parser.ts, lines 1443-1494)\<close>

function HighlightHandler_loop :: "string \<Rightarrow> int \<Rightarrow> DecorationRange list \<Rightarrow> DecorationRange list" where
  "HighlightHandler_loop text pos decorations =
     (if pos < int (length text) then
        (if indexOf text ''=='' pos = -1 then decorations
         else if indexOf text ''=='' (indexOf text ''=='' pos + 2) = -1 then decorations
         else
           (let openIndex = indexOf text ''=='' pos;
                closeIndex = indexOf text ''=='' (openIndex + 2);
                contentStart = openIndex + 2;
                contentEnd = closeIndex
            in HighlightHandler_loop text (closeIndex + 2)
                 (if contentEnd > contentStart
                  then decorations @ [mk Hide openIndex (openIndex + 2),
                                      mk Hide closeIndex (closeIndex + 2),
                                      mk Highlight contentStart contentEnd]
                  else decorations)))
      else decorations)"
  by pat_completeness auto
termination
proof (relation "measure (\<lambda>(text, pos, decorations). nat (int (length text) - pos))", goal_cases)
  case 1
  show ?case by simp
next
  case (2 t pos decorations openIndex closeIndex contentStart contentEnd)
  have o: "pos \<le> openIndex" using 2 indexOf_lower[of t "''==''" pos] by simp
  have ou: "openIndex + 2 \<le> int (length t)" using 2 indexOf_upper[of t "''==''" pos] by simp
  have c: "openIndex + 2 \<le> closeIndex"
    using 2 ou indexOf_lower[of t "''==''" "openIndex + 2"] by simp
  from 2 o c show ?case by simp
qed

definition HighlightHandler_extractDecorations :: "string \<Rightarrow> DecorationRange list" where
  "HighlightHandler_extractDecorations text = HighlightHandler_loop text 0 []"

section \<open>Whitespace, trimming and scans\<close>

text \<open>
  The class \<^verbatim>\<open>\s\<close> of JavaScript regular expressions, which is also the set removed by
  \<^verbatim>\<open>trim()\<close>, on 8-bit code units: tab, line feed, vertical tab, form feed, carriage
  return, space and no-break space.
\<close>

definition is_space :: "char \<Rightarrow> bool" where
  "is_space c = (c \<in> set [CHR 0x09, CHR 0x0A, CHR 0x0B, CHR 0x0C, CHR 0x0D, CHR 0x20, CHR 0xA0])"

definition trim :: "string \<Rightarrow> string" where
  "trim s = rev (dropWhile is_space (rev (dropWhile is_space s)))"

text \<open>
  The loops of the form \<^verbatim>\<open>while (pos < limit && cond(text[pos])) pos++\<close>, which occur
  in most handlers. The condition reads \<^verbatim>\<open>text[pos]\<close>, undefined out of range.
\<close>

function scan_forward :: "(char option \<Rightarrow> bool) \<Rightarrow> string \<Rightarrow> int \<Rightarrow> int \<Rightarrow> int" where
  "scan_forward cond text pos limit =
     (if pos < limit \<and> cond (charAt text pos) then scan_forward cond text (pos + 1) limit else pos)"
  by pat_completeness auto
termination
  by (relation "measure (\<lambda>(cond, text, pos, limit). nat (limit - pos))") auto

declare scan_forward.simps [simp del]

text \<open>
  The loops of the form \<^verbatim>\<open>while (pos > limit && cond(text[pos - 1])) pos--\<close>.
\<close>

function scan_backward :: "(char option \<Rightarrow> bool) \<Rightarrow> string \<Rightarrow> int \<Rightarrow> int \<Rightarrow> int" where
  "scan_backward cond text pos limit =
     (if pos > limit \<and> cond (charAt text (pos - 1)) then scan_backward cond text (pos - 1) limit else pos)"
  by pat_completeness auto
termination
  by (relation "measure (\<lambda>(cond, text, pos, limit). nat (pos - limit))") auto

declare scan_backward.simps [simp del]

lemma scan_forward_ge: "pos \<le> scan_forward cond text pos limit"
proof (induction cond "text" pos limit rule: scan_forward.induct)
  case (1 cond t pos limit)
  show ?case
  proof (cases "pos < limit \<and> cond (charAt t pos)")
    case True
    with 1 have "pos + 1 \<le> scan_forward cond t (pos + 1) limit" by simp
    with True show ?thesis by (subst scan_forward.simps) simp
  next
    case False
    then show ?thesis by (subst scan_forward.simps) auto
  qed
qed

lemma scan_forward_le: "pos \<le> limit \<Longrightarrow> scan_forward cond text pos limit \<le> limit"
proof (induction cond "text" pos limit rule: scan_forward.induct)
  case (1 cond t pos limit)
  show ?case
  proof (cases "pos < limit \<and> cond (charAt t pos)")
    case True
    with 1 have "scan_forward cond t (pos + 1) limit \<le> limit" by simp
    with True show ?thesis by (subst scan_forward.simps) simp
  next
    case False
    with 1 show ?thesis by (subst scan_forward.simps) auto
  qed
qed

lemma scan_forward_stop:
  "scan_forward cond text pos limit < limit \<Longrightarrow> \<not> cond (charAt text (scan_forward cond text pos limit))"
proof (induction cond "text" pos limit rule: scan_forward.induct)
  case (1 cond t pos limit)
  show ?case
  proof (cases "pos < limit \<and> cond (charAt t pos)")
    case True
    then have e: "scan_forward cond t pos limit = scan_forward cond t (pos + 1) limit"
      by (subst scan_forward.simps) simp
    with 1 True show ?thesis by simp
  next
    case False
    then have e: "scan_forward cond t pos limit = pos" by (subst scan_forward.simps) auto
    with 1 False show ?thesis by auto
  qed
qed

lemma scan_forward_all:
  "pos \<le> j \<Longrightarrow> j < scan_forward cond text pos limit \<Longrightarrow> cond (charAt text j)"
proof (induction cond "text" pos limit rule: scan_forward.induct)
  case (1 cond t pos limit)
  show ?case
  proof (cases "pos < limit \<and> cond (charAt t pos)")
    case True
    then have e: "scan_forward cond t pos limit = scan_forward cond t (pos + 1) limit"
      by (subst scan_forward.simps) simp
    show ?thesis
    proof (cases "j = pos")
      case True
      with \<open>pos < limit \<and> cond (charAt t pos)\<close> show ?thesis by simp
    next
      case False
      with 1 True e show ?thesis by simp
    qed
  next
    case False
    then have e: "scan_forward cond t pos limit = pos" by (subst scan_forward.simps) auto
    with 1 show ?thesis by simp
  qed
qed

lemma scan_backward_le: "scan_backward cond text pos limit \<le> pos"
proof (induction cond "text" pos limit rule: scan_backward.induct)
  case (1 cond t pos limit)
  show ?case
  proof (cases "pos > limit \<and> cond (charAt t (pos - 1))")
    case True
    with 1 have "scan_backward cond t (pos - 1) limit \<le> pos - 1" by simp
    with True show ?thesis by (subst scan_backward.simps) simp
  next
    case False
    then show ?thesis by (subst scan_backward.simps) auto
  qed
qed

lemma scan_backward_ge: "limit \<le> pos \<Longrightarrow> limit \<le> scan_backward cond text pos limit"
proof (induction cond "text" pos limit rule: scan_backward.induct)
  case (1 cond t pos limit)
  show ?case
  proof (cases "pos > limit \<and> cond (charAt t (pos - 1))")
    case True
    with 1 have "limit \<le> scan_backward cond t (pos - 1) limit" by simp
    with True show ?thesis by (subst scan_backward.simps) simp
  next
    case False
    with 1 show ?thesis by (subst scan_backward.simps) auto
  qed
qed

section \<open>Node positions: BaseNodeHandler.hasValidPosition (parser.ts, lines 78-94)\<close>

definition hasValidPosition :: "node \<Rightarrow> bool" where
  "hasValidPosition n =
     (case position n of
        None \<Rightarrow> False
      | Some (s, e) \<Rightarrow> s \<noteq> None \<and> e \<noteq> None)"

text \<open>\<^verbatim>\<open>node.position.start.offset!\<close> and \<^verbatim>\<open>node.position.end.offset!\<close>, read only
  after \<open>hasValidPosition\<close>.\<close>

definition start_offset :: "node \<Rightarrow> int" where
  "start_offset n = the (fst (the (position n)))"

definition end_offset :: "node \<Rightarrow> int" where
  "end_offset n = the (snd (the (position n)))"

section \<open>HeadingHandler (parser.ts, lines 99-260)\<close>

text \<open>
  \<^verbatim>\<open>/^(\s*)(#{1,6})(\s+)/\<close>: the greedy whitespace run, then up to six of the
  following \<^verbatim>\<open>#\<close>, then the greedy non-empty whitespace run. Whitespace and
  \<^verbatim>\<open>#\<close> are disjoint, so backtracking finds no other match. The result is the
  lengths of the three groups.
\<close>

definition HEADING_MARKER_PATTERN :: "string \<Rightarrow> (nat \<times> nat \<times> nat) option" where
  "HEADING_MARKER_PATTERN s =
     (let g1 = takeWhile is_space s;
          r1 = dropWhile is_space s;
          g2 = take 6 (takeWhile (\<lambda>c. c = CHR ''#'') r1);
          r2 = drop (length g2) r1;
          g3 = takeWhile is_space r2
      in if 1 \<le> length g2 \<and> 1 \<le> length g3
         then Some (length g1, length g2, length g3) else None)"

text \<open>\<^verbatim>\<open>/^\s*#{1,6}\s*$/\<close>, used by \<^verbatim>\<open>isHeadingEmpty\<close>.\<close>

definition emptyHeadingPattern :: "string \<Rightarrow> bool" where
  "emptyHeadingPattern s =
     (let r1 = dropWhile is_space s;
          g = take 6 (takeWhile (\<lambda>c. c = CHR ''#'') r1);
          r2 = drop (length g) r1
      in 1 \<le> length g \<and> dropWhile is_space r2 = [])"

definition isHeadingEmpty :: "string \<Rightarrow> int \<Rightarrow> int \<Rightarrow> bool" where
  "isHeadingEmpty text startOffset endOffset =
     emptyHeadingPattern (trim (substring text startOffset endOffset))"

definition isEmptyContent :: "string \<Rightarrow> int \<Rightarrow> int \<Rightarrow> bool" where
  "isEmptyContent text contentStart endOffset =
     (if contentStart \<ge> endOffset then True
      else length (trim (substring text contentStart endOffset)) = 0)"

definition getContentStart :: "nat \<times> nat \<times> nat \<Rightarrow> int \<Rightarrow> int" where
  "getContentStart markerMatch startOffset =
     (case markerMatch of (leadingWhitespace, markerLength, spaceAfterMarker) \<Rightarrow>
        startOffset + int leadingWhitespace + int markerLength + int spaceAfterMarker)"

definition createMarkerDecoration :: "nat \<times> nat \<times> nat \<Rightarrow> int \<Rightarrow> DecorationRange list" where
  "createMarkerDecoration markerMatch startOffset =
     (case markerMatch of (leadingWhitespace, markerLength, spaceAfterMarker) \<Rightarrow>
        (let markerStart = startOffset + int leadingWhitespace;
             markerEnd = markerStart + int markerLength + int spaceAfterMarker
         in [mk Hide markerStart markerEnd]))"

definition getHeadingType :: "int \<Rightarrow> dtype" where
  "getHeadingType d =
     (if d = 1 then Heading1 else if d = 2 then Heading2 else if d = 3 then Heading3
      else if d = 4 then Heading4 else if d = 5 then Heading5 else if d = 6 then Heading6
      else Heading)"

definition createContentDecoration :: "nat \<times> nat \<times> nat \<Rightarrow> int \<Rightarrow> int \<Rightarrow> int \<Rightarrow> DecorationRange" where
  "createContentDecoration markerMatch startOffset endOffset d =
     (case markerMatch of (leadingWhitespace, markerLength, spaceAfterMarker) \<Rightarrow>
        (let markerStart = startOffset + int leadingWhitespace;
             markerEnd = markerStart + int markerLength + int spaceAfterMarker
         in \<lparr>startPos = markerEnd, endPos = endOffset, dtype = getHeadingType d, level = Some d\<rparr>))"

definition createFallbackDecoration :: "int \<Rightarrow> int \<Rightarrow> DecorationRange list" where
  "createFallbackDecoration startOffset endOffset = [mk Hide startOffset endOffset]"

definition HeadingHandler_extractDecorations :: "node \<Rightarrow> string \<Rightarrow> DecorationRange list" where
  "HeadingHandler_extractDecorations n text =
     (if \<not> hasValidPosition n then []
      else
        (let startOffset = start_offset n;
             endOffset = end_offset n;
             headingText = substring text startOffset endOffset
         in case HEADING_MARKER_PATTERN headingText of
              None \<Rightarrow>
                (if isHeadingEmpty text startOffset endOffset then []
                 else createFallbackDecoration startOffset endOffset)
            | Some markerMatch \<Rightarrow>
                (let contentStart = getContentStart markerMatch startOffset
                 in if contentStart \<ge> endOffset \<or> isEmptyContent text contentStart endOffset
                    then []
                    else createMarkerDecoration markerMatch startOffset
                         @ [createContentDecoration markerMatch startOffset endOffset (depth n)])))"

section \<open>HorizontalRuleHandler (parser.ts, lines 265-295)\<close>

definition HorizontalRuleHandler_extractDecorations :: "node \<Rightarrow> string \<Rightarrow> DecorationRange list" where
  "HorizontalRuleHandler_extractDecorations n text =
     (if \<not> hasValidPosition n then []
      else
        (let startOffset = start_offset n; endOffset = end_offset n
         in [mk Hide startOffset endOffset, mk HorizontalRule startOffset endOffset]))"

section \<open>CodeBlockHandler (parser.ts, lines 300-442)\<close>

text \<open>
  \<^verbatim>\<open>/^(```+)(.*?)(```+)$/s\<close>, as the backtracking matcher runs it: the first group is
  greedy, so its lengths are tried from the whole leading run of backticks down to three;
  for each, the lazy body is tried from the shortest; the last group is greedy and must
  end at the end of the input, so it has to be the whole rest, all backticks and at least
  three. The result is the lengths of the first and the last group.
\<close>

definition closing_fence_at :: "string \<Rightarrow> nat \<Rightarrow> bool" where
  "closing_fence_at s k = (3 \<le> length (drop k s) \<and> (\<forall>c \<in> set (drop k s). c = CHR ''`''))"

definition fenceMatch :: "string \<Rightarrow> (nat \<times> nat) option" where
  "fenceMatch s =
     (let run = length (takeWhile (\<lambda>c. c = CHR ''`'') s)
      in case List.find (\<lambda>a. \<exists>b \<in> set [0..<Suc (length s - a)]. closing_fence_at s (a + b))
                (rev [3..<Suc run]) of
           None \<Rightarrow> None
         | Some a \<Rightarrow>
             (case List.find (\<lambda>b. closing_fence_at s (a + b)) [0..<Suc (length s - a)] of
                None \<Rightarrow> None
              | Some b \<Rightarrow> Some (a, length s - (a + b))))"

definition findContentStart :: "string \<Rightarrow> int \<Rightarrow> int \<Rightarrow> int" where
  "findContentStart text afterFence beforeClosing =
     (let pos = afterFence;
          pos = scan_forward (\<lambda>c. c = Some CHR '' '' \<or> c = Some CHR 0x09) text pos beforeClosing;
          pos = scan_forward (\<lambda>c. c \<noteq> Some CHR 0x0A \<and> c \<noteq> Some CHR 0x0D
                                  \<and> c \<noteq> Some CHR '' '' \<and> c \<noteq> Some CHR 0x09) text pos beforeClosing;
          pos = scan_forward (\<lambda>c. c = Some CHR '' '' \<or> c = Some CHR 0x09) text pos beforeClosing;
          pos = scan_forward (\<lambda>c. c = Some CHR 0x0A \<or> c = Some CHR 0x0D) text pos beforeClosing
      in pos)"

definition findContentEnd :: "string \<Rightarrow> int \<Rightarrow> int \<Rightarrow> int" where
  "findContentEnd text afterFence beforeClosing =
     scan_backward (\<lambda>c. c = Some CHR 0x0A \<or> c = Some CHR 0x0D) text beforeClosing afterFence"

definition CodeBlockHandler_extractDecorations :: "node \<Rightarrow> string \<Rightarrow> DecorationRange list" where
  "CodeBlockHandler_extractDecorations n text =
     (if \<not> hasValidPosition n then []
      else
        (let startOffset = start_offset n;
             endOffset = end_offset n;
             codeText = substring text startOffset endOffset
         in case fenceMatch codeText of
              None \<Rightarrow> [mk Code startOffset endOffset]
            | Some (openingFence, closingFence) \<Rightarrow>
                (if openingFence = 0 \<or> closingFence = 0 then [mk Code startOffset endOffset]
                 else
                   (let fenceLength = int openingFence;
                        closingFenceStart = endOffset - int closingFence;
                        openingFenceEnd = startOffset + fenceLength;
                        contentStart = findContentStart text openingFenceEnd closingFenceStart;
                        contentEnd = findContentEnd text openingFenceEnd closingFenceStart
                    in [mk Hide startOffset contentStart,
                        mk Hide closingFenceStart endOffset,
                        mk CodeBlock startOffset endOffset]))))"

section \<open>BlockquoteHandler (parser.ts, lines 447-543)\<close>

text \<open>
  \<^verbatim>\<open>/^(\s*)(>+)(\s*)/\<close>: three greedy runs over disjoint classes; it matches when at
  least one \<^verbatim>\<open>>\<close> follows the leading whitespace.
\<close>

definition BLOCKQUOTE_MARKER_PATTERN :: "string \<Rightarrow> (nat \<times> nat \<times> nat) option" where
  "BLOCKQUOTE_MARKER_PATTERN s =
     (let g1 = takeWhile is_space s;
          r1 = dropWhile is_space s;
          g2 = takeWhile (\<lambda>c. c = CHR ''>'') r1;
          r2 = dropWhile (\<lambda>c. c = CHR ''>'') r1;
          g3 = takeWhile is_space r2
      in if 1 \<le> length g2 then Some (length g1, length g2, length g3) else None)"

definition not_newline :: "char option \<Rightarrow> bool" where
  "not_newline c = (c \<noteq> Some CHR 0x0A \<and> c \<noteq> Some CHR 0x0D)"

text \<open>The hide range of one line of the blockquote, if its marker matches.\<close>

definition blockquote_line_marker :: "string \<Rightarrow> int \<Rightarrow> int \<Rightarrow> DecorationRange list" where
  "blockquote_line_marker text lineStart lineEnd =
     (case BLOCKQUOTE_MARKER_PATTERN (substring text lineStart lineEnd) of
        None \<Rightarrow> []
      | Some (leadingWhitespace, markerLength, trailingWhitespace) \<Rightarrow>
          (let markerStart = lineStart + int leadingWhitespace;
               markerEnd = markerStart + int markerLength + int trailingWhitespace
           in if markerEnd > markerStart then [mk Hide markerStart markerEnd] else []))"

text \<open>The end of a loop iteration: move past the line and its newline character(s).\<close>

definition blockquote_next_pos :: "string \<Rightarrow> int \<Rightarrow> int \<Rightarrow> int" where
  "blockquote_next_pos text lineEnd endOffset =
     (let pos = lineEnd;
          pos = (if pos < endOffset \<and> charAt text pos = Some CHR 0x0D then pos + 1 else pos);
          pos = (if pos < endOffset \<and> charAt text pos = Some CHR 0x0A then pos + 1 else pos)
      in pos)"

lemma blockquote_next_pos_progress:
  assumes "pos < endOffset"
  shows "pos < blockquote_next_pos text (scan_forward not_newline text pos endOffset) endOffset
         \<or> endOffset \<le> blockquote_next_pos text (scan_forward not_newline text pos endOffset) endOffset"
proof -
  let ?le = "scan_forward not_newline text pos endOffset"
  have ge: "pos \<le> ?le" by (rule scan_forward_ge)
  show ?thesis
  proof (cases "?le < endOffset")
    case True
    from scan_forward_stop[OF True] have "charAt text ?le = Some CHR 0x0A \<or> charAt text ?le = Some CHR 0x0D"
      by (simp add: not_newline_def)
    with True ge show ?thesis by (auto simp: blockquote_next_pos_def Let_def)
  next
    case False
    then show ?thesis by (auto simp: blockquote_next_pos_def Let_def)
  qed
qed

function blockquote_lines :: "string \<Rightarrow> int \<Rightarrow> int \<Rightarrow> DecorationRange list \<Rightarrow> DecorationRange list" where
  "blockquote_lines text pos endOffset decorations =
     (if pos < endOffset then
        blockquote_lines text
          (blockquote_next_pos text (scan_forward not_newline text pos endOffset) endOffset)
          endOffset
          (decorations @ blockquote_line_marker text pos (scan_forward not_newline text pos endOffset))
      else decorations)"
  by pat_completeness auto
termination
proof (relation "measure (\<lambda>(t, pos, endOffset, decorations). nat (endOffset - pos))", goal_cases)
  case 1
  show ?case by simp
next
  case (2 t pos endOffset decorations)
  from blockquote_next_pos_progress[OF 2, of t] 2 show ?case by auto
qed

declare blockquote_lines.simps [simp del]

definition BlockquoteHandler_extractDecorations :: "node \<Rightarrow> string \<Rightarrow> DecorationRange list" where
  "BlockquoteHandler_extractDecorations n text =
     (if \<not> hasValidPosition n then []
      else
        (let startOffset = start_offset n;
             endOffset = end_offset n;
             actualStart = scan_backward not_newline text startOffset 0;
             decorations = blockquote_lines text actualStart endOffset []
         in decorations @ [mk Blockquote actualStart endOffset]))"

section \<open>InlineCodeHandler (parser.ts, lines 548-613)\<close>

definition BACKTICK_LENGTH :: int where
  "BACKTICK_LENGTH = 1"

definition createOpeningBacktickDecoration :: "int \<Rightarrow> DecorationRange" where
  "createOpeningBacktickDecoration startOffset = mk Hide startOffset (startOffset + BACKTICK_LENGTH)"

definition createClosingBacktickDecoration :: "int \<Rightarrow> DecorationRange" where
  "createClosingBacktickDecoration endOffset = mk Hide (endOffset - BACKTICK_LENGTH) endOffset"

definition createCodeContentDecoration :: "int \<Rightarrow> int \<Rightarrow> DecorationRange" where
  "createCodeContentDecoration startOffset endOffset =
     (let contentStart = startOffset + BACKTICK_LENGTH;
          contentEnd = endOffset - BACKTICK_LENGTH
      in if contentEnd \<le> contentStart then mk Code contentStart (contentStart + 1)
         else mk Code contentStart contentEnd)"

definition InlineCodeHandler_extractDecorations :: "node \<Rightarrow> string \<Rightarrow> DecorationRange list" where
  "InlineCodeHandler_extractDecorations n text =
     (if \<not> hasValidPosition n then []
      else
        (let startOffset = start_offset n; endOffset = end_offset n
         in [createOpeningBacktickDecoration startOffset,
             createClosingBacktickDecoration endOffset,
             createCodeContentDecoration startOffset endOffset]))"

section \<open>Delimiter patterns of the inline handlers\<close>

text \<open>
  The patterns \<^verbatim>\<open>/^(D)(.+?)(D)$/s\<close> for a literal delimiter \<^verbatim>\<open>D\<close>
  (\<^verbatim>\<open>**\<close>, \<^verbatim>\<open>__\<close>, \<^verbatim>\<open>***\<close>, \<^verbatim>\<open>___\<close>, \<^verbatim>\<open>*\<close>, \<^verbatim>\<open>_\<close>): the lazy body
  grows by one character at a time until the delimiter is followed by the end of the
  input, so the pattern matches exactly the inputs that begin and end with the delimiter
  with at least one character between. The result is the length of the first group.
\<close>

definition delimited_match :: "string \<Rightarrow> string \<Rightarrow> nat option" where
  "delimited_match d s =
     (if 2 * length d + 1 \<le> length s \<and> take (length d) s = d \<and> drop (length s - length d) s = d
      then Some (length d) else None)"

text \<open>\<^verbatim>\<open>m && m[1]\<close>: the match exists and its first group is a non-empty string.\<close>

definition truthy_group :: "nat option \<Rightarrow> bool" where
  "truthy_group m = (case m of None \<Rightarrow> False | Some k \<Rightarrow> 0 < k)"

definition delimiter_length :: "int \<Rightarrow> nat option \<Rightarrow> nat option \<Rightarrow> int" where
  "delimiter_length dflt m1 m2 =
     (if truthy_group m1 then int (the m1)
      else if truthy_group m2 then int (the m2)
      else dflt)"

section \<open>StrongHandler (parser.ts, lines 618-786)\<close>

definition hasEmphasisChild :: "node \<Rightarrow> bool" where
  "hasEmphasisChild n =
     (case children n of
        None \<Rightarrow> False
      | Some cs \<Rightarrow> list_ex (\<lambda>child. ntype child = ''emphasis'') cs)"

definition extractBoldDecorations :: "string \<Rightarrow> int \<Rightarrow> int \<Rightarrow> DecorationRange list" where
  "extractBoldDecorations text startOffset endOffset =
     (let nodeText = substring text startOffset endOffset;
          asteriskMatch = delimited_match ''**'' nodeText;
          underscoreMatch = delimited_match ''__'' nodeText;
          delimiterLength = delimiter_length 2 asteriskMatch underscoreMatch;
          contentStart = startOffset + delimiterLength;
          contentEnd = endOffset - delimiterLength
      in [mk Hide startOffset (startOffset + delimiterLength),
          mk Hide (endOffset - delimiterLength) endOffset,
          mk Bold contentStart contentEnd])"

definition boldItalic_child :: "node \<Rightarrow> string \<Rightarrow> DecorationRange list" where
  "boldItalic_child child text =
     (if ntype child = ''emphasis'' \<and> hasValidPosition child then
        (let emphasisStart = start_offset child;
             emphasisEnd = end_offset child;
             emphasisText = substring text emphasisStart emphasisEnd;
             singleAsteriskMatch = delimited_match ''*'' emphasisText;
             singleUnderscoreMatch = delimited_match ''_'' emphasisText;
             delimiterLength = delimiter_length 1 singleAsteriskMatch singleUnderscoreMatch
         in [mk Hide emphasisStart (emphasisStart + delimiterLength),
             mk Hide (emphasisEnd - delimiterLength) emphasisEnd,
             mk BoldItalic (emphasisStart + delimiterLength) (emphasisEnd - delimiterLength)])
      else if hasValidPosition child then
        [mk Bold (start_offset child) (end_offset child)]
      else [])"

fun processChildrenForBoldItalic :: "node list \<Rightarrow> string \<Rightarrow> DecorationRange list \<Rightarrow> DecorationRange list" where
  "processChildrenForBoldItalic [] text decorations = decorations"
| "processChildrenForBoldItalic (child # rest) text decorations =
     processChildrenForBoldItalic rest text (decorations @ boldItalic_child child text)"

definition extractBoldItalicDecorations :: "node \<Rightarrow> string \<Rightarrow> int \<Rightarrow> int \<Rightarrow> DecorationRange list" where
  "extractBoldItalicDecorations n text startOffset endOffset =
     (let nodeText = substring text startOffset endOffset;
          tripleAsteriskMatch = delimited_match ''***'' nodeText;
          tripleUnderscoreMatch = delimited_match ''___'' nodeText;
          outerDelimiterLength = delimiter_length 3 tripleAsteriskMatch tripleUnderscoreMatch;
          decorations = [mk Hide startOffset (startOffset + outerDelimiterLength),
                         mk Hide (endOffset - outerDelimiterLength) endOffset]
      in case children n of
           None \<Rightarrow> decorations
         | Some cs \<Rightarrow> processChildrenForBoldItalic cs text decorations)"

definition StrongHandler_extractDecorations :: "node \<Rightarrow> string \<Rightarrow> DecorationRange list" where
  "StrongHandler_extractDecorations n text =
     (if \<not> hasValidPosition n then []
      else
        (let startOffset = start_offset n; endOffset = end_offset n
         in if hasEmphasisChild n
            then extractBoldItalicDecorations n text startOffset endOffset
            else extractBoldDecorations text startOffset endOffset))"

section \<open>EmphasisHandler (parser.ts, lines 791-862)\<close>

definition EmphasisHandler_extractDecorations :: "node \<Rightarrow> string \<Rightarrow> DecorationRange list" where
  "EmphasisHandler_extractDecorations n text =
     (if \<not> hasValidPosition n then []
      else
        (let startOffset = start_offset n;
             endOffset = end_offset n;
             beforeText = substring text (max 0 (startOffset - 2)) startOffset;
             afterText = substring text endOffset (min (int (length text)) (endOffset + 2))
         in if beforeText = ''**'' \<and> afterText = ''**'' then []
            else if beforeText = ''__'' \<and> afterText = ''__'' then []
            else
              (let nodeText = substring text startOffset endOffset;
                   asteriskMatch = delimited_match ''*'' nodeText;
                   underscoreMatch = delimited_match ''_'' nodeText;
                   delimiterLength = delimiter_length 1 asteriskMatch underscoreMatch;
                   contentStart = startOffset + delimiterLength;
                   contentEnd = endOffset - delimiterLength
               in [mk Hide startOffset (startOffset + delimiterLength),
                   mk Hide (endOffset - delimiterLength) endOffset,
                   mk Italic contentStart contentEnd])))"

section \<open>DeleteHandler (parser.ts, lines 868-910)\<close>

definition DeleteHandler_extractDecorations :: "node \<Rightarrow> string \<Rightarrow> DecorationRange list" where
  "DeleteHandler_extractDecorations n text =
     (if \<not> hasValidPosition n then []
      else
        (let startOffset = start_offset n;
             endOffset = end_offset n;
             contentStart = startOffset + 2;
             contentEnd = endOffset - 2
         in if contentEnd \<le> contentStart then []
            else [mk Hide startOffset (startOffset + 2),
                  mk Hide (endOffset - 2) endOffset,
                  mk Strikethrough contentStart contentEnd]))"

section \<open>Scans shared by the link and image handlers\<close>

text \<open>
  The search for the opening \<^verbatim>\<open>(\<close> (or, in the reference handlers, the second
  \<^verbatim>\<open>[\<close>): only space, line feed and carriage return may come before it; any other
  character makes the handler return the empty list, which is \<open>None\<close> here.
\<close>

function find_opening :: "char \<Rightarrow> string \<Rightarrow> int \<Rightarrow> int \<Rightarrow> int option" where
  "find_opening c text pos endOffset =
     (if pos < endOffset \<and> charAt text pos \<noteq> Some c then
        (if charAt text pos \<noteq> Some CHR '' '' \<and> charAt text pos \<noteq> Some CHR 0x0A
            \<and> charAt text pos \<noteq> Some CHR 0x0D
         then None
         else find_opening c text (pos + 1) endOffset)
      else Some pos)"
  by pat_completeness auto
termination
  by (relation "measure (\<lambda>(c, text, pos, endOffset). nat (endOffset - pos))") auto

declare find_opening.simps [simp del]

text \<open>The depth-counted search for the closing \<^verbatim>\<open>)\<close>.\<close>

function find_closing_paren :: "string \<Rightarrow> int \<Rightarrow> int \<Rightarrow> int \<Rightarrow> int" where
  "find_closing_paren text parenEnd parenDepth endOffset =
     (if parenEnd < endOffset \<and> parenDepth > 0 then
        find_closing_paren text (parenEnd + 1)
          (if charAt text parenEnd = Some CHR ''('' then parenDepth + 1
           else if charAt text parenEnd = Some CHR '')'' then parenDepth - 1
           else parenDepth)
          endOffset
      else parenEnd)"
  by pat_completeness auto
termination
  by (relation "measure (\<lambda>(text, parenEnd, parenDepth, endOffset). nat (endOffset - parenEnd))") auto

declare find_closing_paren.simps [simp del]

definition not_closing_bracket :: "char option \<Rightarrow> bool" where
  "not_closing_bracket c = (c \<noteq> Some CHR '']'')"

section \<open>LinkHandler (parser.ts, lines 915-1072)\<close>

definition LinkHandler_extractDecorations :: "node \<Rightarrow> string \<Rightarrow> DecorationRange list" where
  "LinkHandler_extractDecorations n text =
     (if \<not> hasValidPosition n then []
      else
        (let startOffset = start_offset n;
             endOffset = end_offset n;
             beforeChar = (if startOffset > 0 then charAt text (startOffset - 1) else None);
             afterChar = (if endOffset < int (length text) then charAt text endOffset else None);
             nodeStartChar = (if startOffset < int (length text) then charAt text startOffset else None);
             nodeEndChar = (if endOffset > 0 then charAt text (endOffset - 1) else None)
         in if beforeChar = Some CHR ''<'' \<and> afterChar = Some CHR ''>'' then
              [mk Hide (startOffset - 1) startOffset,
               mk Hide endOffset (endOffset + 1),
               mk Link startOffset endOffset]
            else if nodeStartChar = Some CHR ''<'' \<and> nodeEndChar = Some CHR ''>'' then
              [mk Hide startOffset (startOffset + 1),
               mk Hide (endOffset - 1) endOffset,
               mk Link (startOffset + 1) (endOffset - 1)]
            else
              (let linkText = substring text startOffset endOffset
               in if charAt linkText 0 \<noteq> Some CHR ''['' then []
                  else
                    (let bracketStart = startOffset;
                         bracketEnd = scan_forward not_closing_bracket text (bracketStart + 1) endOffset
                     in if bracketEnd \<ge> endOffset then []
                        else
                          (case find_opening CHR ''('' text (bracketEnd + 1) endOffset of
                             None \<Rightarrow> []
                           | Some parenStart \<Rightarrow>
                               (if parenStart \<ge> endOffset then []
                                else
                                  (let parenEnd = find_closing_paren text (parenStart + 1) 1 endOffset
                                   in if bracketStart < bracketEnd \<and> parenStart < parenEnd then
                                        [mk Hide bracketStart (bracketStart + 1),
                                         mk Hide bracketEnd (bracketEnd + 1),
                                         mk Hide parenStart parenEnd]
                                        @ (let textStart = bracketStart + 1; textEnd = bracketEnd
                                           in if textEnd > textStart then [mk Link textStart textEnd] else [])
                                      else [])))))))"

section \<open>ImageHandler (parser.ts, lines 1077-1200)\<close>

definition ImageHandler_extractDecorations :: "node \<Rightarrow> string \<Rightarrow> DecorationRange list" where
  "ImageHandler_extractDecorations n text =
     (if \<not> hasValidPosition n then []
      else
        (let startOffset = start_offset n;
             endOffset = end_offset n;
             imageText = substring text startOffset endOffset
         in if charAt imageText 0 \<noteq> Some CHR ''!'' then []
            else
              (let exclamationStart = startOffset;
                   bracketStart = startOffset + 1
               in if bracketStart \<ge> endOffset \<or> charAt text bracketStart \<noteq> Some CHR ''['' then []
                  else
                    (let bracketEnd = scan_forward not_closing_bracket text (bracketStart + 1) endOffset
                     in if bracketEnd \<ge> endOffset then []
                        else
                          (case find_opening CHR ''('' text (bracketEnd + 1) endOffset of
                             None \<Rightarrow> []
                           | Some parenStart \<Rightarrow>
                               (if parenStart \<ge> endOffset then []
                                else
                                  (let parenEnd = find_closing_paren text (parenStart + 1) 1 endOffset
                                   in if exclamationStart < bracketStart \<and> bracketStart < bracketEnd
                                         \<and> parenStart < parenEnd then
                                        [mk Hide exclamationStart (exclamationStart + 1),
                                         mk Hide bracketStart (bracketStart + 1),
                                         mk Hide bracketEnd (bracketEnd + 1),
                                         mk Hide parenStart parenEnd]
                                        @ (let altStart = bracketStart + 1; altEnd = bracketEnd
                                           in if altEnd > altStart then [mk Image altStart altEnd] else [])
                                      else [])))))))"

section \<open>LinkReferenceHandler (parser.ts, lines 1205-1310)\<close>

definition LinkReferenceHandler_extractDecorations :: "node \<Rightarrow> string \<Rightarrow> DecorationRange list" where
  "LinkReferenceHandler_extractDecorations n text =
     (if \<not> hasValidPosition n then []
      else
        (let startOffset = start_offset n;
             endOffset = end_offset n;
             linkText = substring text startOffset endOffset
         in if charAt linkText 0 \<noteq> Some CHR ''['' then []
            else
              (let bracketStart = startOffset;
                   bracketEnd = scan_forward not_closing_bracket text (bracketStart + 1) endOffset
               in if bracketEnd \<ge> endOffset then []
                  else
                    (case find_opening CHR ''['' text (bracketEnd + 1) endOffset of
                       None \<Rightarrow> []
                     | Some refBracketStart \<Rightarrow>
                         (if refBracketStart \<ge> endOffset then []
                          else
                            (let refBracketEnd =
                                   scan_forward not_closing_bracket text (refBracketStart + 1) endOffset
                             in if refBracketEnd \<ge> endOffset then []
                                else if bracketStart < bracketEnd \<and> refBracketStart < refBracketEnd then
                                  [mk Hide bracketStart (bracketStart + 1),
                                   mk Hide bracketEnd (bracketEnd + 1),
                                   mk Hide refBracketStart (refBracketEnd + 1)]
                                  @ (let textStart = bracketStart + 1; textEnd = bracketEnd
                                     in if textEnd > textStart then [mk Link textStart textEnd] else [])
                                else []))))))"

section \<open>ImageReferenceHandler (parser.ts, lines 1315-1437)\<close>

definition ImageReferenceHandler_extractDecorations :: "node \<Rightarrow> string \<Rightarrow> DecorationRange list" where
  "ImageReferenceHandler_extractDecorations n text =
     (if \<not> hasValidPosition n then []
      else
        (let startOffset = start_offset n;
             endOffset = end_offset n;
             imageText = substring text startOffset endOffset
         in if charAt imageText 0 \<noteq> Some CHR ''!'' then []
            else
              (let exclamationStart = startOffset;
                   bracketStart = startOffset + 1
               in if bracketStart \<ge> endOffset \<or> charAt text bracketStart \<noteq> Some CHR ''['' then []
                  else
                    (let bracketEnd = scan_forward not_closing_bracket text (bracketStart + 1) endOffset
                     in if bracketEnd \<ge> endOffset then []
                        else
                          (case find_opening CHR ''['' text (bracketEnd + 1) endOffset of
                             None \<Rightarrow> []
                           | Some refBracketStart \<Rightarrow>
                               (if refBracketStart \<ge> endOffset then []
                                else
                                  (let refBracketEnd =
                                         scan_forward not_closing_bracket text (refBracketStart + 1) endOffset
                                   in if refBracketEnd \<ge> endOffset then []
                                      else if exclamationStart < bracketStart \<and> bracketStart < bracketEnd
                                              \<and> refBracketStart < refBracketEnd then
                                        [mk Hide exclamationStart (exclamationStart + 1),
                                         mk Hide bracketStart (bracketStart + 1),
                                         mk Hide bracketEnd (bracketEnd + 1),
                                         mk Hide refBracketStart (refBracketEnd + 1)]
                                        @ (let altStart = bracketStart + 1; altEnd = bracketEnd
                                           in if altEnd > altStart then [mk Image altStart altEnd] else [])
                                      else [])))))))"

section \<open>DecorationCollector (parser.ts, lines 1499-1539)\<close>

text \<open>
  The key \<^verbatim>\<open>`${startPos}-${endPos}-${type}`\<close> of a decoration. The two offsets are
  integers printed in decimal and the type tag is one of the fixed names, which contain
  neither a digit nor \<^verbatim>\<open>-\<close>, so the key string determines the triple and is modelled by
  the triple itself.
\<close>

definition createKey :: "DecorationRange \<Rightarrow> int \<times> int \<times> dtype" where
  "createKey decoration = (startPos decoration, endPos decoration, dtype decoration)"

record DecorationCollector =
  ranges :: "DecorationRange list"
  seen :: "(int \<times> int \<times> dtype) set"

definition new_DecorationCollector :: DecorationCollector where
  "new_DecorationCollector = \<lparr>ranges = [], seen = {}\<rparr>"

definition add :: "DecorationCollector \<Rightarrow> DecorationRange \<Rightarrow> DecorationCollector" where
  "add c decoration =
     (let key = createKey decoration
      in if key \<notin> seen c
         then c\<lparr>seen := insert key (seen c), ranges := ranges c @ [decoration]\<rparr>
         else c)"

definition addAll :: "DecorationCollector \<Rightarrow> DecorationRange list \<Rightarrow> DecorationCollector" where
  "addAll c decorations = foldl add c decorations"

definition getAll :: "DecorationCollector \<Rightarrow> DecorationRange list" where
  "getAll c = ranges c"

section \<open>MarkdownParser (parser.ts, lines 1545-1672)\<close>

text \<open>The registered handlers, in their order of registration.\<close>

datatype handler =
    HeadingHandler | StrongHandler | EmphasisHandler | InlineCodeHandler | CodeBlockHandler
  | BlockquoteHandler | HorizontalRuleHandler | DeleteHandler | LinkHandler | ImageHandler
  | LinkReferenceHandler | ImageReferenceHandler

definition handlers :: "handler list" where
  "handlers = [HeadingHandler, StrongHandler, EmphasisHandler, InlineCodeHandler, CodeBlockHandler,
               BlockquoteHandler, HorizontalRuleHandler, DeleteHandler, LinkHandler, ImageHandler,
               LinkReferenceHandler, ImageReferenceHandler]"

fun canHandle :: "handler \<Rightarrow> node \<Rightarrow> bool" where
  "canHandle HeadingHandler n = (ntype n = ''heading'')"
| "canHandle StrongHandler n = (ntype n = ''strong'')"
| "canHandle EmphasisHandler n = (ntype n = ''emphasis'')"
| "canHandle InlineCodeHandler n = (ntype n = ''inlineCode'')"
| "canHandle CodeBlockHandler n = (ntype n = ''code'')"
| "canHandle BlockquoteHandler n = (ntype n = ''blockquote'')"
| "canHandle HorizontalRuleHandler n = (ntype n = ''thematicBreak'')"
| "canHandle DeleteHandler n = (ntype n = ''delete'')"
| "canHandle LinkHandler n = (ntype n = ''link'')"
| "canHandle ImageHandler n = (ntype n = ''image'')"
| "canHandle LinkReferenceHandler n = (ntype n = ''linkReference'')"
| "canHandle ImageReferenceHandler n = (ntype n = ''imageReference'')"

fun extractDecorations :: "handler \<Rightarrow> node \<Rightarrow> string \<Rightarrow> DecorationRange list" where
  "extractDecorations HeadingHandler = HeadingHandler_extractDecorations"
| "extractDecorations StrongHandler = StrongHandler_extractDecorations"
| "extractDecorations EmphasisHandler = EmphasisHandler_extractDecorations"
| "extractDecorations InlineCodeHandler = InlineCodeHandler_extractDecorations"
| "extractDecorations CodeBlockHandler = CodeBlockHandler_extractDecorations"
| "extractDecorations BlockquoteHandler = BlockquoteHandler_extractDecorations"
| "extractDecorations HorizontalRuleHandler = HorizontalRuleHandler_extractDecorations"
| "extractDecorations DeleteHandler = DeleteHandler_extractDecorations"
| "extractDecorations LinkHandler = LinkHandler_extractDecorations"
| "extractDecorations ImageHandler = ImageHandler_extractDecorations"
| "extractDecorations LinkReferenceHandler = LinkReferenceHandler_extractDecorations"
| "extractDecorations ImageReferenceHandler = ImageReferenceHandler_extractDecorations"

definition findHandler :: "node \<Rightarrow> handler option" where
  "findHandler n = List.find (\<lambda>h. canHandle h n) handlers"

text \<open>
  \<^verbatim>\<open>visit(ast, visitor)\<close> of unist-util-visit calls the visitor on every node of the tree
  in depth-first pre-order; the visitor here returns nothing, so no subtree is skipped.
  The traversal is the list of the nodes in that order.
\<close>

fun visit :: "node \<Rightarrow> node list" where
  "visit (Node t p cs d) =
     Node t p cs d # (case cs of None \<Rightarrow> [] | Some l \<Rightarrow> concat (map visit l))"

text \<open>
  The set \<^verbatim>\<open>boldItalicEmphasisRanges\<close> holds keys \<^verbatim>\<open>`${contentStart}-${contentEnd}`\<close>.
  The filter splits a key at \<^verbatim>\<open>-\<close> and uses it only when that gives exactly two parts,
  both numbers; for two integers printed in decimal this is the case exactly when neither
  is negative. The set is modelled as a set of pairs and the split as \<open>split_rangeKey\<close>.
\<close>

definition split_rangeKey :: "int \<times> int \<Rightarrow> (int \<times> int) option" where
  "split_rangeKey k = (if 0 \<le> fst k \<and> 0 \<le> snd k then Some k else None)"

definition track_emphasis_child :: "(int \<times> int) set \<Rightarrow> node \<Rightarrow> (int \<times> int) set" where
  "track_emphasis_child boldItalicEmphasisRanges child =
     (if ntype child = ''emphasis'' \<and> hasValidPosition child then
        (let emphasisStart = start_offset child;
             emphasisEnd = end_offset child;
             contentStart = emphasisStart + 1;
             contentEnd = emphasisEnd - 1
         in if contentEnd > contentStart
            then insert (contentStart, contentEnd) boldItalicEmphasisRanges
            else boldItalicEmphasisRanges)
      else boldItalicEmphasisRanges)"

definition track_strong :: "(int \<times> int) set \<Rightarrow> node \<Rightarrow> (int \<times> int) set" where
  "track_strong boldItalicEmphasisRanges n =
     (if ntype n = ''strong'' \<and> children n \<noteq> None then
        (let hasEmphasis = list_ex (\<lambda>child. ntype child = ''emphasis'') (the (children n))
         in if hasEmphasis \<and> hasValidPosition n
            then foldl track_emphasis_child boldItalicEmphasisRanges (the (children n))
            else boldItalicEmphasisRanges)
      else boldItalicEmphasisRanges)"

text \<open>The visitor callback, on the pair of the collector and the set of tracked ranges.\<close>

definition visitor :: "string \<Rightarrow> DecorationCollector \<times> (int \<times> int) set \<Rightarrow> node
    \<Rightarrow> DecorationCollector \<times> (int \<times> int) set" where
  "visitor text st n =
     (case findHandler n of
        None \<Rightarrow> st
      | Some h \<Rightarrow>
          (let decorations = extractDecorations h n text
           in (addAll (fst st) decorations, track_strong (snd st) n)))"

definition overlaps_tracked :: "DecorationRange \<Rightarrow> int \<times> int \<Rightarrow> bool" where
  "overlaps_tracked dec rangeKey =
     (case split_rangeKey rangeKey of
        None \<Rightarrow> False
      | Some (start, end) \<Rightarrow>
          (startPos dec \<ge> start \<and> startPos dec < end)
          \<or> (endPos dec > start \<and> endPos dec \<le> end)
          \<or> (startPos dec \<le> start \<and> endPos dec \<ge> end))"

definition keep_decoration :: "(int \<times> int) set \<Rightarrow> DecorationRange \<Rightarrow> bool" where
  "keep_decoration boldItalicEmphasisRanges dec =
     (if dtype dec = Italic
      then \<not> (\<exists>rangeKey \<in> boldItalicEmphasisRanges. overlaps_tracked dec rangeKey)
      else True)"

text \<open>
  \<^verbatim>\<open>MarkdownParser.extractDecorations\<close>. The syntax tree comes from the external parser
  (\<^verbatim>\<open>this.processor.parse\<close>), which is the parameter \<open>parseAST\<close>.
\<close>

definition MarkdownParser_extractDecorations :: "(string \<Rightarrow> node) \<Rightarrow> string \<Rightarrow> DecorationRange list" where
  "MarkdownParser_extractDecorations parseAST text =
     (let ast = parseAST text;
          st = foldl (visitor text) (new_DecorationCollector, {}) (visit ast);
          collector = fst st;
          boldItalicEmphasisRanges = snd st;
          allDecorations = getAll collector;
          filteredDecorations = filter (keep_decoration boldItalicEmphasisRanges) allDecorations;
          highlightDecorations = HighlightHandler_extractDecorations text
      in filteredDecorations @ highlightDecorations)"

section \<open>The objects of a call\<close>

text \<open>
  The \<^verbatim>\<open>MarkdownParser\<close> object holds the processor, the list of handlers and the
  highlight handler. The handlers and the highlight handler have no field that a call
  writes (the two regular expressions kept by the heading and the blockquote handler
  carry neither the \<^verbatim>\<open>g\<close> nor the \<^verbatim>\<open>y\<close> flag, so \<^verbatim>\<open>match\<close> neither reads nor
  writes their \<^verbatim>\<open>lastIndex\<close>); they are the constant \<open>handlers\<close> and the function
  \<open>HighlightHandler_extractDecorations\<close> above. The processor is the external parser,
  taken as a function of the text.
\<close>

record MarkdownParser =
  processor :: "string \<Rightarrow> node"

text \<open>
  \<^verbatim>\<open>extractDecorations\<close> works on objects that it reaches through references: the
  parser object \<^verbatim>\<open>this\<close>, the collector made by \<^verbatim>\<open>new DecorationCollector()\<close> and the
  set made by \<^verbatim>\<open>new Set<string>()\<close>; the visitor callback updates the last two through
  their references. The store is the list of the objects that exist, and a reference is
  an index into it. Objects are never removed, so the store after some calls still holds
  the collectors and sets of those calls.
\<close>

datatype object =
    is_parser: ParserObject (the_parser: MarkdownParser)
  | CollectorObject (the_collector: DecorationCollector)
  | SetObject (the_set: "(int \<times> int) set")

type_synonym store = "object list"

text \<open>\<^verbatim>\<open>new\<close>: the object is put at the end of the store and its reference returned.\<close>

definition new_object :: "store \<Rightarrow> object \<Rightarrow> nat \<times> store" where
  "new_object s obj = (length s, s @ [obj])"

text \<open>
  The visitor callback of \<^verbatim>\<open>extractDecorations\<close>, with the collector and the set given
  by their references.
\<close>

definition visitor_in_store :: "string \<Rightarrow> nat \<Rightarrow> nat \<Rightarrow> store \<Rightarrow> node \<Rightarrow> store" where
  "visitor_in_store text collector boldItalicEmphasisRanges s n =
     (case findHandler n of
        None \<Rightarrow> s
      | Some h \<Rightarrow>
          (let decorations = extractDecorations h n text;
               s1 = s[boldItalicEmphasisRanges :=
                        SetObject (track_strong (the_set (s ! boldItalicEmphasisRanges)) n)]
           in s1[collector := CollectorObject (addAll (the_collector (s1 ! collector)) decorations)]))"

text \<open>
  A call \<^verbatim>\<open>this.extractDecorations(text)\<close> in a store: the returned list and the store
  as the call leaves it. The call is undefined (\<open>None\<close>) when \<^verbatim>\<open>this\<close> is not a
  reference to a parser object.
\<close>

definition call_extractDecorations :: "nat \<Rightarrow> string \<Rightarrow> store \<Rightarrow> (DecorationRange list \<times> store) option" where
  "call_extractDecorations this text s =
     (if this < length s \<and> is_parser (s ! this) then
        (let ast = processor (the_parser (s ! this)) text;
             (collector, s1) = new_object s (CollectorObject new_DecorationCollector);
             (boldItalicEmphasisRanges, s2) = new_object s1 (SetObject {});
             s3 = foldl (visitor_in_store text collector boldItalicEmphasisRanges) s2 (visit ast);
             allDecorations = getAll (the_collector (s3 ! collector));
             filteredDecorations =
               filter (keep_decoration (the_set (s3 ! boldItalicEmphasisRanges))) allDecorations;
             highlightDecorations = HighlightHandler_extractDecorations text
         in Some (filteredDecorations @ highlightDecorations, s3))
      else None)"

text \<open>The store after one call, and after a sequence of calls on the given texts.\<close>

definition store_after :: "nat \<Rightarrow> string \<Rightarrow> store \<Rightarrow> store" where
  "store_after this text s =
     (case call_extractDecorations this text s of None \<Rightarrow> s | Some (decorations, s') \<Rightarrow> s')"

definition after_calls :: "nat \<Rightarrow> string list \<Rightarrow> store \<Rightarrow> store" where
  "after_calls this texts s = foldl (\<lambda>s' t. store_after this t s') s texts"

section \<open>Predicates used to state the properties\<close>

subsection \<open>Highlight delimiters\<close>

text \<open>
  \<open>is_delim text i\<close>: a \<^verbatim>\<open>==\<close> delimiter starts at offset \<open>i\<close>.
  \<open>first_delim text pos k\<close>: \<open>k\<close> is the first delimiter at or after \<open>pos\<close>.
\<close>

definition is_delim :: "string \<Rightarrow> int \<Rightarrow> bool" where
  "is_delim text i = (charAt text i = Some CHR ''='' \<and> charAt text (i + 1) = Some CHR ''='')"

definition first_delim :: "string \<Rightarrow> int \<Rightarrow> int \<Rightarrow> bool" where
  "first_delim text pos k = (pos \<le> k \<and> is_delim text k \<and> (\<forall>j. pos \<le> j \<and> j < k \<longrightarrow> \<not> is_delim text j))"

text \<open>
  The pairing of the claim, in words: \<open>successive_pairs text pos pairs\<close> holds when,
  reading from \<open>pos\<close>, the first delimiter opens the first pair, the first delimiter at
  or after two characters further closes it, the next pair is looked for from two
  characters past that closing delimiter, and after the last pair either no delimiter is
  left or one opening delimiter with no delimiter after it. \<open>pair_ranges\<close> gives the
  ranges of one pair: the two 2-character hides and the highlight range over the
  interior when the interior is not empty, and nothing otherwise.
\<close>

fun successive_pairs :: "string \<Rightarrow> int \<Rightarrow> (int \<times> int) list \<Rightarrow> bool" where
  "successive_pairs text pos [] =
     ((\<forall>j\<ge>pos. \<not> is_delim text j)
      \<or> (\<exists>openIndex. first_delim text pos openIndex \<and> (\<forall>j\<ge>openIndex + 2. \<not> is_delim text j)))"
| "successive_pairs text pos (pair # pairs) =
     (first_delim text pos (fst pair) \<and> first_delim text (fst pair + 2) (snd pair)
      \<and> successive_pairs text (snd pair + 2) pairs)"

definition pair_ranges :: "int \<times> int \<Rightarrow> DecorationRange list" where
  "pair_ranges pair =
     (if fst pair + 2 < snd pair
      then [mk Hide (fst pair) (fst pair + 2), mk Hide (snd pair) (snd pair + 2),
            mk Highlight (fst pair + 2) (snd pair)]
      else [])"

subsection \<open>Headings and code fences\<close>

text \<open>
  \<open>marker_only s\<close>: the text is whitespace, one to six \<^verbatim>\<open>#\<close>, whitespace.
\<close>

definition marker_only :: "string \<Rightarrow> bool" where
  "marker_only s =
     (\<exists>w1 k w2. (\<forall>c \<in> set w1. is_space c) \<and> 1 \<le> k \<and> k \<le> 6 \<and> (\<forall>c \<in> set w2. is_space c)
        \<and> s = w1 @ replicate k CHR ''#'' @ w2)"

text \<open>
  The fence pattern in words: three or more backticks, any body, three or more backticks
  at the end of the span.
\<close>

definition matches_fence_pattern :: "string \<Rightarrow> bool" where
  "matches_fence_pattern s =
     (\<exists>a body c. 3 \<le> a \<and> 3 \<le> c \<and> s = replicate a CHR ''`'' @ body @ replicate c CHR ''`'')"

subsection \<open>Inline links\<close>

text \<open>
  \<open>link_gap c\<close>: one of the three characters that the link handler accepts between
  the closing \<^verbatim>\<open>]\<close> and the opening \<^verbatim>\<open>(\<close>.
\<close>

definition link_gap :: "char option \<Rightarrow> bool" where
  "link_gap c = (c = Some CHR '' '' \<or> c = Some CHR 0x0A \<or> c = Some CHR 0x0D)"

text \<open>
  \<open>never_balanced cs\<close>: reading \<open>cs\<close> after an opening parenthesis, the nesting depth,
  which starts at 1, is positive at every point, the end included.
\<close>

fun open_throughout :: "int \<Rightarrow> string \<Rightarrow> bool" where
  "open_throughout d [] = (0 < d)"
| "open_throughout d (c # cs) =
     (0 < d \<and> open_throughout (if c = CHR ''('' then d + 1 else if c = CHR '')'' then d - 1 else d) cs)"

definition never_balanced :: "string \<Rightarrow> bool" where
  "never_balanced cs = open_throughout 1 cs"

subsection \<open>Spans and ranges\<close>

text \<open>
  Two half-open spans overlap when they share an offset.
\<close>

definition spans_overlap :: "int \<times> int \<Rightarrow> int \<times> int \<Rightarrow> bool" where
  "spans_overlap x y = (max (fst x) (fst y) < min (snd x) (snd y))"

text \<open>
  \<open>valid_range\<close>: the range is not empty and lies inside the text.
\<close>

definition valid_range :: "string \<Rightarrow> DecorationRange \<Rightarrow> bool" where
  "valid_range text d = (0 \<le> startPos d \<and> startPos d < endPos d \<and> endPos d \<le> int (length text))"

text \<open>
  \<open>scanner_like\<close>: the triples that the highlight scanner can emit, a highlight range or
  a hide range over the two characters of a \<^verbatim>\<open>==\<close> delimiter.
\<close>

definition scanner_like :: "string \<Rightarrow> DecorationRange \<Rightarrow> bool" where
  "scanner_like text d =
     (dtype d = Highlight \<or> (dtype d = Hide \<and> endPos d = startPos d + 2 \<and> is_delim text (startPos d)))"

text \<open>
  \<open>collector_inv\<close>: the collector holds each key once, and \<open>seen\<close> is the set of the
  keys it holds.
\<close>

definition collector_inv :: "DecorationCollector \<Rightarrow> bool" where
  "collector_inv c = (distinct (map createKey (ranges c)) \<and> seen c = set (map createKey (ranges c)))"

subsection \<open>The contract of the external parser\<close>

text \<open>
  The syntax tree comes from the external parser, whose grammar is not part of the
  engine. The predicates state what the engine relies on.

  \<open>positioned_ok\<close>: a node that has a position spans a non-empty part of the text, long
  enough to hold the delimiters of its construct (a strong node has two delimiter
  characters on each side of a non-empty content, an emphasis node one; a link has at
  least three characters and an inline code node at least two).

  \<open>node_ok\<close>: a node for which a handler is registered is \<open>positioned_ok\<close>, and so are the
  children of a strong node. Nothing is required of the other nodes (the root of an
  empty document has an empty span).

  \<open>delimiters_ok\<close>: a strong or strikethrough node that has a position neither begins nor
  ends with \<^verbatim>\<open>==\<close>, and a heading or a thematic break is not just the two characters
  \<^verbatim>\<open>==\<close>. This is not part of what the parser guarantees: it holds when the offsets of
  the tree are offsets into the text (such a node then begins and ends with its own
  delimiter), and it can fail when they are shifted.
\<close>

definition positioned_ok :: "string \<Rightarrow> node \<Rightarrow> bool" where
  "positioned_ok text n =
     (\<not> hasValidPosition n \<or>
      (0 \<le> start_offset n \<and> start_offset n < end_offset n \<and> end_offset n \<le> int (length text)
       \<and> (ntype n \<noteq> ''strong'' \<or> start_offset n + 5 \<le> end_offset n)
       \<and> (ntype n \<noteq> ''emphasis'' \<or> start_offset n + 3 \<le> end_offset n)
       \<and> (ntype n \<noteq> ''link'' \<or> start_offset n + 3 \<le> end_offset n)
       \<and> (ntype n \<noteq> ''inlineCode'' \<or> start_offset n + 2 \<le> end_offset n)))"

definition node_ok :: "string \<Rightarrow> node \<Rightarrow> bool" where
  "node_ok text n =
     (findHandler n = None \<or>
      (positioned_ok text n
       \<and> (ntype n \<noteq> ''strong''
          \<or> (\<forall>c \<in> set (case children n of None \<Rightarrow> [] | Some cs \<Rightarrow> cs). positioned_ok text c))))"

definition delimiters_ok :: "string \<Rightarrow> node \<Rightarrow> bool" where
  "delimiters_ok text n =
     (\<not> hasValidPosition n \<or>
      ((ntype n \<noteq> ''strong'' \<and> ntype n \<noteq> ''delete''
          \<or> \<not> is_delim text (start_offset n) \<and> \<not> is_delim text (end_offset n - 2))
       \<and> (ntype n \<noteq> ''heading'' \<and> ntype n \<noteq> ''thematicBreak''
          \<or> \<not> (end_offset n = start_offset n + 2 \<and> is_delim text (start_offset n)))))"

section \<open>Where the decorations of the output come from\<close>

lemma find_SomeD: "List.find P xs = Some x \<Longrightarrow> P x \<and> x \<in> set xs"
  by (induction xs) (auto split: if_splits)

text \<open>Every decoration of the collector comes from a handler called on a visited node.\<close>

lemma add_ranges: "set (ranges (add c d)) \<subseteq> insert d (set (ranges c))"
  by (auto simp: add_def Let_def)

lemma addAll_ranges: "set (ranges (addAll c ds)) \<subseteq> set (ranges c) \<union> set ds"
  unfolding addAll_def
proof (induction ds arbitrary: c)
  case Nil
  then show ?case by simp
next
  case (Cons d ds)
  have "set (ranges (foldl add (add c d) ds)) \<subseteq> set (ranges (add c d)) \<union> set ds" by (rule Cons.IH)
  also have "\<dots> \<subseteq> insert d (set (ranges c)) \<union> set ds" using add_ranges[of c d] by auto
  finally show ?case by auto
qed

lemma findHandler_canHandle: "findHandler n = Some h \<Longrightarrow> canHandle h n"
  unfolding findHandler_def by (auto dest: find_SomeD)

lemma visitor_ranges:
  assumes "d \<in> set (ranges (fst (visitor text st n)))"
  shows "d \<in> set (ranges (fst st))
         \<or> (\<exists>h. canHandle h n \<and> d \<in> set (extractDecorations h n text))"
proof (cases "findHandler n")
  case None
  with assms show ?thesis by (simp add: visitor_def)
next
  case (Some h)
  with assms have "d \<in> set (ranges (addAll (fst st) (extractDecorations h n text)))"
    by (simp add: visitor_def Let_def)
  with addAll_ranges[of "fst st" "extractDecorations h n text"]
  have "d \<in> set (ranges (fst st)) \<or> d \<in> set (extractDecorations h n text)" by auto
  with findHandler_canHandle[OF Some] show ?thesis by blast
qed

lemma foldl_visitor_ranges:
  assumes "d \<in> set (ranges (fst (foldl (visitor text) st ns)))"
  shows "d \<in> set (ranges (fst st))
         \<or> (\<exists>n \<in> set ns. \<exists>h. canHandle h n \<and> d \<in> set (extractDecorations h n text))"
  using assms
proof (induction ns arbitrary: st)
  case Nil
  then show ?case by simp
next
  case (Cons n ns)
  from Cons.IH[of "visitor text st n"] Cons.prems
  have "d \<in> set (ranges (fst (visitor text st n)))
        \<or> (\<exists>m \<in> set ns. \<exists>h. canHandle h m \<and> d \<in> set (extractDecorations h m text))" by simp
  then show ?case
  proof
    assume "d \<in> set (ranges (fst (visitor text st n)))"
    from visitor_ranges[OF this] show ?thesis by auto
  next
    assume "\<exists>m \<in> set ns. \<exists>h. canHandle h m \<and> d \<in> set (extractDecorations h m text)"
    then show ?thesis by auto
  qed
qed

lemma output_origin:
  assumes "d \<in> set (MarkdownParser_extractDecorations parseAST text)"
  shows "(\<exists>n \<in> set (visit (parseAST text)). \<exists>h. canHandle h n \<and> d \<in> set (extractDecorations h n text))
         \<or> d \<in> set (HighlightHandler_extractDecorations text)"
proof -
  let ?st = "foldl (visitor text) (new_DecorationCollector, {}) (visit (parseAST text))"
  from assms have "d \<in> set (ranges (fst ?st)) \<or> d \<in> set (HighlightHandler_extractDecorations text)"
    by (auto simp: MarkdownParser_extractDecorations_def Let_def getAll_def)
  then show ?thesis
  proof
    assume "d \<in> set (ranges (fst ?st))"
    from foldl_visitor_ranges[OF this] show ?thesis by (simp add: new_DecorationCollector_def)
  next
    assume "d \<in> set (HighlightHandler_extractDecorations text)"
    then show ?thesis by simp
  qed
qed

section \<open>Repeated extraction\<close>

text \<open>
  The visitor in the store does to the two objects what the visitor on the pair of their
  values does, and touches no other object; hence a call made in any store returns the
  list \<open>MarkdownParser_extractDecorations\<close> and only adds its two objects to the store.
\<close>

lemma visitor_in_store_step:
  "visitor_in_store text (length s) (Suc (length s)) (s @ [CollectorObject col, SetObject rs]) n
     = s @ [CollectorObject (fst (visitor text (col, rs) n)), SetObject (snd (visitor text (col, rs) n))]"
proof (cases "findHandler n")
  case None
  then show ?thesis by (simp add: visitor_in_store_def visitor_def)
next
  case (Some h)
  have u1: "(s @ [CollectorObject col, SetObject rs])[Suc (length s) := x]
              = s @ [CollectorObject col, x]" for x
    by (simp add: list_update_append)
  have u2: "(s @ [CollectorObject col, y])[length s := x] = s @ [x, y]" for x y
    by (simp add: list_update_append)
  have n1: "(s @ [CollectorObject col, SetObject rs]) ! Suc (length s) = SetObject rs"
    by (simp add: nth_append)
  have n2: "(s @ [CollectorObject col, y]) ! length s = CollectorObject col" for y
    by (simp add: nth_append)
  show ?thesis
    unfolding visitor_in_store_def visitor_def Some option.case Let_def u1 n1 n2 u2
    by simp
qed

lemma foldl_visitor_in_store:
  "foldl (visitor_in_store text (length s) (Suc (length s))) (s @ [CollectorObject col, SetObject rs]) ns
     = s @ [CollectorObject (fst (foldl (visitor text) (col, rs) ns)),
            SetObject (snd (foldl (visitor text) (col, rs) ns))]"
proof (induction ns arbitrary: col rs)
  case Nil
  show ?case by simp
next
  case (Cons n ns)
  show ?case
    unfolding foldl_Cons visitor_in_store_step
    using Cons.IH[of "fst (visitor text (col, rs) n)" "snd (visitor text (col, rs) n)"]
    by simp
qed

lemma call_extractDecorations_result:
  assumes "this < length s" "s ! this = ParserObject p"
  shows "call_extractDecorations this text s
           = Some (MarkdownParser_extractDecorations (processor p) text,
                   s @ [CollectorObject (fst (foldl (visitor text) (new_DecorationCollector, {}) (visit (processor p text)))),
                        SetObject (snd (foldl (visitor text) (new_DecorationCollector, {}) (visit (processor p text))))])"
proof -
  let ?st = "foldl (visitor text) (new_DecorationCollector, {}) (visit (processor p text))"
  have a: "(s @ [CollectorObject new_DecorationCollector]) @ [SetObject {}]
             = s @ [CollectorObject new_DecorationCollector, SetObject {}]" by simp
  have n1: "(s @ [CollectorObject (fst ?st), SetObject (snd ?st)]) ! length s = CollectorObject (fst ?st)"
    by (simp add: nth_append)
  have n2: "(s @ [CollectorObject (fst ?st), SetObject (snd ?st)]) ! Suc (length s) = SetObject (snd ?st)"
    by (simp add: nth_append)
  show ?thesis
    unfolding call_extractDecorations_def new_object_def Let_def prod.case
    using assms
    by (simp add: a foldl_visitor_in_store n1 n2 MarkdownParser_extractDecorations_def Let_def
          del: append_assoc)
qed

lemma take_prefix_trans:
  assumes "take (length s) t = s" "take (length t) u = t"
  shows "take (length s) u = s"
proof -
  have "length (take (length s) t) = length s" using assms(1) by simp
  then have "length s \<le> length t" by simp
  then have "take (length s) u = take (length s) (take (length t) u)" by (simp add: min_def)
  with assms show ?thesis by simp
qed

lemma store_after_keeps:
  assumes "this < length s" "s ! this = ParserObject p"
  shows "this < length (store_after this text s)" "store_after this text s ! this = ParserObject p"
    "take (length s) (store_after this text s) = s"
  using assms by (simp_all add: store_after_def call_extractDecorations_result nth_append)

lemma after_calls_keeps:
  assumes "this < length s" "s ! this = ParserObject p"
  shows "this < length (after_calls this texts s) \<and> after_calls this texts s ! this = ParserObject p
         \<and> take (length s) (after_calls this texts s) = s"
  using assms
proof (induction texts arbitrary: s)
  case Nil
  then show ?case by (simp add: after_calls_def)
next
  case (Cons t ts)
  let ?s = "store_after this t s"
  from store_after_keeps[OF Cons.prems, of t]
  have k: "this < length ?s" "?s ! this = ParserObject p" "take (length s) ?s = s" .
  from Cons.IH[OF k(1,2)] have ih: "this < length (after_calls this ts ?s)"
    "after_calls this ts ?s ! this = ParserObject p"
    "take (length ?s) (after_calls this ts ?s) = ?s" by simp_all
  have e: "after_calls this (t # ts) s = after_calls this ts ?s" by (simp add: after_calls_def)
  from take_prefix_trans[OF k(3) ih(3)] ih e show ?case by simp
qed

text \<open>
  Claim C3. In any store, whatever objects earlier calls have left in it: a call of
  \<^verbatim>\<open>extractDecorations\<close> on a parser object returns a list; a second call on the
  identical text, made after the first and after any number of calls on other texts in
  between, returns the same list (so the two lists are set-equal); and these calls
  change no object that existed before them, the parser object included.
\<close>

theorem extraction_idempotent:
  assumes "this < length s" "s ! this = ParserObject p"
  shows "call_extractDecorations this text s \<noteq> None
     \<and> map_option fst (call_extractDecorations this text (after_calls this texts (store_after this text s)))
         = map_option fst (call_extractDecorations this text s)
     \<and> map_option (\<lambda>r. set (fst r))
           (call_extractDecorations this text (after_calls this texts (store_after this text s)))
         = map_option (\<lambda>r. set (fst r)) (call_extractDecorations this text s)
     \<and> take (length s) (after_calls this texts (store_after this text s)) = s"
proof -
  let ?s1 = "store_after this text s"
  let ?s2 = "after_calls this texts ?s1"
  from store_after_keeps[OF assms, of "text"]
  have k1: "this < length ?s1" "?s1 ! this = ParserObject p" "take (length s) ?s1 = s" .
  from after_calls_keeps[OF k1(1,2), of texts]
  have k2: "this < length ?s2" "?s2 ! this = ParserObject p" "take (length ?s1) ?s2 = ?s1" by simp_all
  have fr: "take (length s) ?s2 = s" using k1(3) k2(3) by (rule take_prefix_trans)
  show ?thesis
    using fr by (simp add: call_extractDecorations_result[OF assms] call_extractDecorations_result[OF k2(1,2)])
qed

theorem extraction_idempotent_witness:
  "map_option fst (call_extractDecorations 0 ''*a* ==b==''
      (after_calls 0 [''x'', ''*a* ==b==''] (store_after 0 ''*a* ==b==''
         [ParserObject \<lparr>processor = (\<lambda>t. if t = ''*a* ==b==''
              then Node ''root'' (Some (Some 0, Some 9)) (Some [Node ''paragraph'' (Some (Some 0, Some 9))
                     (Some [Node ''emphasis'' (Some (Some 0, Some 3)) (Some [Node ''text'' (Some (Some 1, Some 2)) None 0]) 0,
                            Node ''text'' (Some (Some 3, Some 9)) None 0]) 0]) 0
              else Node ''root'' (Some (Some 0, Some 1)) (Some [Node ''paragraph'' (Some (Some 0, Some 1))
                     (Some [Node ''text'' (Some (Some 0, Some 1)) None 0]) 0]) 0)\<rparr>])))
   = Some [mk Hide 0 1, mk Hide 2 3, mk Italic 1 2, mk Hide 4 6, mk Hide 7 9, mk Highlight 6 7]"
proof -
  let ?p = "\<lparr>processor = (\<lambda>t. if t = ''*a* ==b==''
              then Node ''root'' (Some (Some 0, Some 9)) (Some [Node ''paragraph'' (Some (Some 0, Some 9))
                     (Some [Node ''emphasis'' (Some (Some 0, Some 3)) (Some [Node ''text'' (Some (Some 1, Some 2)) None 0]) 0,
                            Node ''text'' (Some (Some 3, Some 9)) None 0]) 0]) 0
              else Node ''root'' (Some (Some 0, Some 1)) (Some [Node ''paragraph'' (Some (Some 0, Some 1))
                     (Some [Node ''text'' (Some (Some 0, Some 1)) None 0]) 0]) 0)\<rparr>"
  have first: "map_option fst (call_extractDecorations 0 ''*a* ==b=='' [ParserObject ?p])
      = Some [mk Hide 0 1, mk Hide 2 3, mk Italic 1 2, mk Hide 4 6, mk Hide 7 9, mk Highlight 6 7]"
    by code_simp
  have h: "0 < length [ParserObject ?p]" "[ParserObject ?p] ! 0 = ParserObject ?p" by simp_all
  from extraction_idempotent[OF h, of "''*a* ==b==''" "[''x'', ''*a* ==b=='']"] first
  show ?thesis by simp
qed

section \<open>Italic ranges inside bold-italic\<close>

lemma track_emphasis_child_mono: "S \<subseteq> track_emphasis_child S c"
  by (auto simp: track_emphasis_child_def Let_def)

lemma foldl_track_mono: "S \<subseteq> foldl track_emphasis_child S cs"
proof (induction cs arbitrary: S)
  case Nil
  then show ?case by simp
next
  case (Cons c cs)
  have "S \<subseteq> track_emphasis_child S c" by (rule track_emphasis_child_mono)
  also have "\<dots> \<subseteq> foldl track_emphasis_child (track_emphasis_child S c) cs" by (rule Cons.IH)
  finally show ?case by simp
qed

lemma foldl_track_member:
  assumes "c \<in> set cs" "ntype c = ''emphasis''" "hasValidPosition c"
    "end_offset c - 1 > start_offset c + 1"
  shows "(start_offset c + 1, end_offset c - 1) \<in> foldl track_emphasis_child S cs"
  using assms(1)
proof (induction cs arbitrary: S)
  case Nil
  then show ?case by simp
next
  case (Cons x xs)
  show ?case
  proof (cases "x = c")
    case True
    have "(start_offset c + 1, end_offset c - 1) \<in> track_emphasis_child S c"
      using assms(2-4) by (simp add: track_emphasis_child_def Let_def)
    then show ?thesis using True foldl_track_mono[of "track_emphasis_child S c" xs] by auto
  next
    case False
    with Cons show ?thesis by simp
  qed
qed

lemma track_strong_mono: "S \<subseteq> track_strong S n"
  using foldl_track_mono by (auto simp: track_strong_def Let_def)

lemma visitor_tracked_mono: "snd st \<subseteq> snd (visitor text st n)"
  using track_strong_mono by (auto simp: visitor_def Let_def split: option.splits)

lemma foldl_visitor_tracked_mono: "snd st \<subseteq> snd (foldl (visitor text) st ns)"
proof (induction ns arbitrary: st)
  case Nil
  then show ?case by simp
next
  case (Cons n ns)
  have "snd st \<subseteq> snd (visitor text st n)" by (rule visitor_tracked_mono)
  also have "\<dots> \<subseteq> snd (foldl (visitor text) (visitor text st n) ns)" by (rule Cons.IH)
  finally show ?case by simp
qed

lemma findHandler_strong: "ntype n = ''strong'' \<Longrightarrow> findHandler n = Some StrongHandler"
  by (simp add: findHandler_def handlers_def)

lemma visitor_tracks_child:
  assumes "ntype n = ''strong''" "hasValidPosition n" "children n = Some cs"
    "c \<in> set cs" "ntype c = ''emphasis''" "hasValidPosition c"
    "end_offset c - 1 > start_offset c + 1"
  shows "(start_offset c + 1, end_offset c - 1) \<in> snd (visitor text st n)"
proof -
  have "list_ex (\<lambda>child. ntype child = ''emphasis'') cs"
    using assms(4,5) by (auto simp: list_ex_iff)
  then have "track_strong (snd st) n = foldl track_emphasis_child (snd st) cs"
    using assms(1-3) by (simp add: track_strong_def Let_def)
  moreover have "(start_offset c + 1, end_offset c - 1) \<in> foldl track_emphasis_child (snd st) cs"
    using assms(4-7) by (rule foldl_track_member)
  ultimately show ?thesis
    using findHandler_strong[OF assms(1)] by (simp add: visitor_def Let_def)
qed

lemma foldl_visitor_tracks_child:
  assumes "n \<in> set ns" "ntype n = ''strong''" "hasValidPosition n" "children n = Some cs"
    "c \<in> set cs" "ntype c = ''emphasis''" "hasValidPosition c"
    "end_offset c - 1 > start_offset c + 1"
  shows "(start_offset c + 1, end_offset c - 1) \<in> snd (foldl (visitor text) st ns)"
  using assms(1)
proof (induction ns arbitrary: st)
  case Nil
  then show ?case by simp
next
  case (Cons x xs)
  show ?case
  proof (cases "x = n")
    case True
    have "(start_offset c + 1, end_offset c - 1) \<in> snd (visitor text st n)"
      using assms(2-8) by (rule visitor_tracks_child)
    then show ?thesis
      using True foldl_visitor_tracked_mono[of "visitor text st n" "text" xs] by auto
  next
    case False
    with Cons show ?thesis by simp
  qed
qed

lemma highlight_loop_types:
  assumes "\<forall>d \<in> set ds. dtype d \<noteq> Italic"
  shows "\<forall>d \<in> set (HighlightHandler_loop text pos ds). dtype d \<noteq> Italic"
  using assms
proof (induction "text" pos ds rule: HighlightHandler_loop.induct)
  case (1 t pos ds)
  show ?case
  proof (cases "pos < int (length t) \<and> indexOf t ''=='' pos \<noteq> -1
                \<and> indexOf t ''=='' (indexOf t ''=='' pos + 2) \<noteq> -1")
    case False
    then show ?thesis using "1.prems" by (subst HighlightHandler_loop.simps) auto
  next
    case True
    let ?o = "indexOf t ''=='' pos"
    let ?c = "indexOf t ''=='' (?o + 2)"
    let ?ds = "if ?c > ?o + 2 then ds @ [mk Hide ?o (?o + 2), mk Hide ?c (?c + 2), mk Highlight (?o + 2) ?c] else ds"
    have "\<forall>d \<in> set ?ds. dtype d \<noteq> Italic" using "1.prems" by (auto simp: mk_def)
    with "1.IH"[of ?o ?c "?o + 2" ?c] True
    have "\<forall>d \<in> set (HighlightHandler_loop t (?c + 2) ?ds). dtype d \<noteq> Italic" by simp
    moreover have "HighlightHandler_loop t pos ds = HighlightHandler_loop t (?c + 2) ?ds"
      using True by (subst HighlightHandler_loop.simps) (simp add: Let_def del: HighlightHandler_loop.simps)
    ultimately show ?thesis by simp
  qed
qed

text \<open>
  Claim C4. When a strong node of the tree, with a position, has an emphasis child with a
  position (at a non-negative offset), no italic range of the final output overlaps the
  content span of that child, which excludes one delimiter character on each side.
\<close>

theorem no_italic_over_bold_italic:
  assumes "n \<in> set (visit (parseAST text))" "ntype n = ''strong''" "hasValidPosition n"
    and "children n = Some cs" "c \<in> set cs" "ntype c = ''emphasis''" "hasValidPosition c"
    and "0 \<le> start_offset c"
  shows "\<forall>d \<in> set (MarkdownParser_extractDecorations parseAST text).
           dtype d = Italic \<longrightarrow>
           \<not> spans_overlap (startPos d, endPos d) (start_offset c + 1, end_offset c - 1)"
proof (intro ballI impI)
  fix d
  assume d: "d \<in> set (MarkdownParser_extractDecorations parseAST text)" and it: "dtype d = Italic"
  let ?st = "foldl (visitor text) (new_DecorationCollector, {}) (visit (parseAST text))"
  let ?k = "(start_offset c + 1, end_offset c - 1)"
  have "\<forall>d \<in> set (HighlightHandler_extractDecorations text). dtype d \<noteq> Italic"
    unfolding HighlightHandler_extractDecorations_def by (rule highlight_loop_types) simp
  with d it have "d \<in> set (filter (keep_decoration (snd ?st)) (getAll (fst ?st)))"
    by (auto simp: MarkdownParser_extractDecorations_def Let_def)
  then have keep: "keep_decoration (snd ?st) d" by simp
  show "\<not> spans_overlap (startPos d, endPos d) ?k"
  proof (cases "end_offset c - 1 > start_offset c + 1")
    case False
    then show ?thesis by (simp add: spans_overlap_def)
  next
    case True
    have "?k \<in> snd ?st" using assms(1-7) True by (rule foldl_visitor_tracks_child)
    with keep it have "\<not> overlaps_tracked d ?k" by (auto simp: keep_decoration_def)
    moreover have "split_rangeKey ?k = Some ?k" using assms(8) True by (simp add: split_rangeKey_def)
    ultimately show ?thesis by (auto simp: overlaps_tracked_def spans_overlap_def)
  qed
qed

theorem no_italic_over_bold_italic_witness:
  "mk Italic 5 6 \<in> set (EmphasisHandler_extractDecorations
      (Node ''emphasis'' (Some (Some 4, Some 7)) (Some [Node ''text'' (Some (Some 5, Some 6)) None 0]) 0)
      ''**a *b* c**'')
   \<and> mk Italic 5 6 \<notin> set (MarkdownParser_extractDecorations
        (\<lambda>t. Node ''root'' (Some (Some 0, Some 11)) (Some [
           Node ''paragraph'' (Some (Some 0, Some 11)) (Some [
             Node ''strong'' (Some (Some 0, Some 11)) (Some [
               Node ''text'' (Some (Some 2, Some 4)) None 0,
               Node ''emphasis'' (Some (Some 4, Some 7)) (Some [Node ''text'' (Some (Some 5, Some 6)) None 0]) 0,
               Node ''text'' (Some (Some 7, Some 9)) None 0]) 0]) 0]) 0)
        ''**a *b* c**'')"
proof -
  let ?c = "Node ''emphasis'' (Some (Some 4, Some 7)) (Some [Node ''text'' (Some (Some 5, Some 6)) None 0]) 0"
  let ?cs = "[Node ''text'' (Some (Some 2, Some 4)) None 0, ?c, Node ''text'' (Some (Some 7, Some 9)) None 0]"
  let ?n = "Node ''strong'' (Some (Some 0, Some 11)) (Some ?cs) 0"
  let ?root = "Node ''root'' (Some (Some 0, Some 11)) (Some [Node ''paragraph'' (Some (Some 0, Some 11)) (Some [?n]) 0]) 0"
  have e: "mk Italic 5 6 \<in> set (EmphasisHandler_extractDecorations ?c ''**a *b* c**'')"
    by code_simp
  have h: "?n \<in> set (visit ((\<lambda>t. ?root) ''**a *b* c**''))" "ntype ?n = ''strong''" "hasValidPosition ?n"
    "children ?n = Some ?cs" "?c \<in> set ?cs" "ntype ?c = ''emphasis''" "hasValidPosition ?c"
    "0 \<le> start_offset ?c"
    by (simp_all add: hasValidPosition_def start_offset_def)
  have o: "spans_overlap (startPos (mk Italic 5 6), endPos (mk Italic 5 6)) (start_offset ?c + 1, end_offset ?c - 1)"
    "dtype (mk Italic 5 6) = Italic"
    by (simp_all add: spans_overlap_def mk_def start_offset_def end_offset_def)
  from no_italic_over_bold_italic[of ?n "\<lambda>t. ?root" "''**a *b* c**''" ?cs ?c] h o
  have "mk Italic 5 6 \<notin> set (MarkdownParser_extractDecorations (\<lambda>t. ?root) ''**a *b* c**'')"
    by blast
  with e show ?thesis by simp
qed

section \<open>Inline links\<close>

lemma scan_forward_first:
  assumes "pos \<le> b" "b < limit" "\<not> cond (charAt text b)"
    and "\<forall>j. pos \<le> j \<and> j < b \<longrightarrow> cond (charAt text j)"
  shows "scan_forward cond text pos limit = b"
  using assms
proof (induction cond "text" pos limit rule: scan_forward.induct)
  case (1 cond t pos limit)
  show ?case
  proof (cases "pos = b")
    case True
    with 1 show ?thesis by (subst scan_forward.simps) simp
  next
    case False
    with 1 have c: "pos < limit \<and> cond (charAt t pos)" by simp
    with 1 False have "scan_forward cond t (pos + 1) limit = b" by simp
    with c show ?thesis by (subst scan_forward.simps) simp
  qed
qed

lemma find_opening_first:
  assumes "pos \<le> p" "p < endOffset" "charAt text p = Some c"
    and "\<forall>j. pos \<le> j \<and> j < p \<longrightarrow> link_gap (charAt text j) \<and> charAt text j \<noteq> Some c"
  shows "find_opening c text pos endOffset = Some p"
  using assms
proof (induction c "text" pos endOffset rule: find_opening.induct)
  case (1 c t pos endOffset)
  show ?case
  proof (cases "pos = p")
    case True
    with 1 show ?thesis by (subst find_opening.simps) simp
  next
    case False
    with 1 have g: "pos < endOffset" "link_gap (charAt t pos)" "charAt t pos \<noteq> Some c" by simp_all
    with 1 False have "find_opening c t (pos + 1) endOffset = Some p" by (simp add: link_gap_def)
    with g show ?thesis by (subst find_opening.simps) (auto simp: link_gap_def)
  qed
qed

lemma find_closing_paren_ge: "parenEnd \<le> find_closing_paren text parenEnd parenDepth endOffset"
proof (induction "text" parenEnd parenDepth endOffset rule: find_closing_paren.induct)
  case (1 t parenEnd parenDepth endOffset)
  show ?case
  proof (cases "parenEnd < endOffset \<and> parenDepth > 0")
    case True
    let ?d = "if charAt t parenEnd = Some CHR ''('' then parenDepth + 1
              else if charAt t parenEnd = Some CHR '')'' then parenDepth - 1 else parenDepth"
    from 1 True have "parenEnd + 1 \<le> find_closing_paren t (parenEnd + 1) ?d endOffset" by simp
    moreover have "find_closing_paren t parenEnd parenDepth endOffset
                   = find_closing_paren t (parenEnd + 1) ?d endOffset"
      using True by (subst find_closing_paren.simps) simp
    ultimately show ?thesis by simp
  next
    case False
    then show ?thesis by (subst find_closing_paren.simps) auto
  qed
qed

lemma find_closing_paren_le:
  "parenEnd \<le> endOffset \<Longrightarrow> find_closing_paren text parenEnd parenDepth endOffset \<le> endOffset"
proof (induction "text" parenEnd parenDepth endOffset rule: find_closing_paren.induct)
  case (1 t parenEnd parenDepth endOffset)
  show ?case
  proof (cases "parenEnd < endOffset \<and> parenDepth > 0")
    case True
    with 1 show ?thesis by (subst find_closing_paren.simps) simp
  next
    case False
    with 1 show ?thesis by (subst find_closing_paren.simps) auto
  qed
qed

lemma substring_step:
  assumes "0 \<le> q" "q < e" "q < int (length text)"
  shows "substring text q e = text ! nat q # substring text (q + 1) e"
proof -
  have cq: "clamp text q = nat q" "clamp text (q + 1) = nat q + 1"
    using assms by (simp_all add: clamp_def)
  have ce: "nat q < clamp text e" using assms unfolding clamp_def by linarith
  have m: "min (nat q) (clamp text e) = nat q" "max (nat q) (clamp text e) = clamp text e"
    "min (nat q + 1) (clamp text e) = nat q + 1" "max (nat q + 1) (clamp text e) = clamp text e"
    using ce by simp_all
  have lt: "nat q < length text" using assms by simp
  have "take (clamp text e - nat q) (drop (nat q) text)
        = text ! nat q # take (clamp text e - (nat q + 1)) (drop (nat q + 1) text)"
  proof -
    have "drop (nat q) text = text ! nat q # drop (nat q + 1) text"
      using lt by (simp add: Cons_nth_drop_Suc)
    moreover have "clamp text e - nat q = Suc (clamp text e - (nat q + 1))" using ce by simp
    ultimately show ?thesis by simp
  qed
  then show ?thesis unfolding substring_def Let_def cq m .
qed

lemma substring_beyond:
  assumes "int (length text) \<le> q" "q \<le> e"
  shows "substring text q e = []"
proof -
  have "clamp text q = length text" "clamp text e = length text"
    using assms by (simp_all add: clamp_def)
  then show ?thesis by (simp add: substring_def)
qed

lemma substring_length_within:
  assumes "0 \<le> q" "q \<le> e" "e \<le> int (length text)"
  shows "length (substring text q e) = nat (e - q)"
proof -
  have c: "clamp text q = nat q" "clamp text e = nat e"
    using assms by (simp_all add: clamp_def)
  have m: "min (nat q) (nat e) = nat q" "max (nat q) (nat e) = nat e" using assms by simp_all
  show ?thesis unfolding substring_def Let_def c m using assms by simp
qed

lemma find_closing_paren_open:
  assumes "0 \<le> q" "q \<le> e" "open_throughout d (substring text q e)"
  shows "find_closing_paren text q d e = e"
  using assms
proof (induction "text" q d e rule: find_closing_paren.induct)
  case (1 t q d e)
  from "1.prems"(3) have d0: "0 < d" by (cases "substring t q e") simp_all
  show ?case
  proof (cases "q < e")
    case False
    with 1 show ?thesis by (subst find_closing_paren.simps) simp
  next
    case True
    let ?d = "if charAt t q = Some CHR ''('' then d + 1
              else if charAt t q = Some CHR '')'' then d - 1 else d"
    have "open_throughout ?d (substring t (q + 1) e)"
    proof (cases "q < int (length t)")
      case inside: True
      let ?c = "t ! nat q"
      have ch: "charAt t q = Some ?c" using inside 1 by (simp add: charAt_def)
      have sc: "substring t q e = ?c # substring t (q + 1) e"
        using "1.prems" True inside by (intro substring_step) simp_all
      have d': "?d = (if ?c = CHR ''('' then d + 1 else if ?c = CHR '')'' then d - 1 else d)"
        using ch by simp
      show ?thesis using "1.prems"(3) unfolding sc d' by simp
    next
      case outside: False
      then have ch: "charAt t q = None" by (simp add: charAt_def)
      have "substring t (q + 1) e = []" using outside True by (intro substring_beyond) simp_all
      with d0 ch show ?thesis by simp
    qed
    with "1.IH" True d0 "1.prems" have "find_closing_paren t (q + 1) ?d e = e" by simp
    moreover have "find_closing_paren t q d e = find_closing_paren t (q + 1) ?d e"
      using True d0 by (subst find_closing_paren.simps) simp
    ultimately show ?thesis by simp
  qed
qed

lemma substring_first:
  assumes "0 \<le> s" "s < e" "charAt text s = Some c"
  shows "charAt (substring text s e) 0 = Some c"
proof -
  from assms(3) have lt: "s < int (length text)" by (simp add: charAt_def split: if_splits)
  have cs: "clamp text s = nat s" using assms(1) lt by (simp add: clamp_def)
  have "s < min (max e 0) (int (length text))" using assms lt by simp
  then have ce: "nat s < clamp text e" using assms(1) unfolding clamp_def by linarith
  have m: "min (nat s) (clamp text e) = nat s" "max (nat s) (clamp text e) = clamp text e"
    using ce by simp_all
  have "drop (nat s) text = text ! nat s # drop (Suc (nat s)) text"
    using lt assms(1) by (simp add: Cons_nth_drop_Suc)
  moreover have "clamp text e - nat s = Suc (clamp text e - Suc (nat s))" using ce by simp
  ultimately have "substring text s e = text ! nat s # take (clamp text e - Suc (nat s)) (drop (Suc (nat s)) text)"
    unfolding substring_def Let_def cs m by simp
  then show ?thesis using assms(3) lt assms(1) by (simp add: charAt_def)
qed

lemma link_inline_shape:
  assumes v: "hasValidPosition n"
    and s0: "0 \<le> start_offset n"
    and op: "charAt text (start_offset n) = Some CHR ''[''"
    and na: "\<not> (charAt text (start_offset n - 1) = Some CHR ''<'' \<and> charAt text (end_offset n) = Some CHR ''>'')"
    and b: "start_offset n < b" "b < end_offset n" "charAt text b = Some CHR '']''"
           "\<forall>j. start_offset n < j \<and> j < b \<longrightarrow> charAt text j \<noteq> Some CHR '']''"
    and p: "b < p" "p < end_offset n" "charAt text p = Some CHR ''(''"
           "\<forall>j. b < j \<and> j < p \<longrightarrow> link_gap (charAt text j)"
  shows "LinkHandler_extractDecorations n text =
           [mk Hide (start_offset n) (start_offset n + 1), mk Hide b (b + 1),
            mk Hide p (find_closing_paren text (p + 1) 1 (end_offset n))]
           @ (if start_offset n + 1 < b then [mk Link (start_offset n + 1) b] else [])"
proof -
  let ?s = "start_offset n" and ?e = "end_offset n"
  have se: "?s < ?e" using b by simp
  have case1: "((if ?s > 0 then charAt text (?s - 1) else None) = Some CHR ''<''
                 \<and> (if ?e < int (length text) then charAt text ?e else None) = Some CHR ''>'') = False"
    using na by (auto split: if_splits)
  have case2: "((if ?s < int (length text) then charAt text ?s else None) = Some CHR ''<''
                 \<and> (if ?e > 0 then charAt text (?e - 1) else None) = Some CHR ''>'') = False"
    using op by (auto split: if_splits)
  have first: "charAt (substring text ?s ?e) 0 = Some CHR ''[''"
    using s0 se op by (rule substring_first)
  have be: "scan_forward not_closing_bracket text (?s + 1) ?e = b"
    using b by (intro scan_forward_first) (auto simp: not_closing_bracket_def)
  have "link_gap (charAt text j) \<and> charAt text j \<noteq> Some CHR ''(''" if "b + 1 \<le> j \<and> j < p" for j
  proof -
    from that p(4) have "link_gap (charAt text j)" by simp
    then show ?thesis by (auto simp: link_gap_def)
  qed
  then have "\<forall>j. b + 1 \<le> j \<and> j < p \<longrightarrow> link_gap (charAt text j) \<and> charAt text j \<noteq> Some CHR ''(''"
    by blast
  with p have ps: "find_opening CHR ''('' text (b + 1) ?e = Some p"
    by (intro find_opening_first) auto
  have pe: "p < find_closing_paren text (p + 1) 1 ?e"
    using find_closing_paren_ge[of "p + 1" "text" 1 ?e] by simp
  show ?thesis
    unfolding LinkHandler_extractDecorations_def Let_def case1 case2
    using v first be ps pe b(1,2) p(2) by simp
qed

text \<open>
  Claim C10, amended. For a link node that is not directly enclosed in \<^verbatim>\<open><\<close> and
  \<^verbatim>\<open>>\<close>, begins with \<^verbatim>\<open>[\<close>, has its first \<^verbatim>\<open>]\<close> at \<open>b\<close> inside the node and,
  after only spaces, line feeds and carriage returns, a \<^verbatim>\<open>(\<close> at \<open>p\<close> inside the
  node, and whose parentheses are never balanced up to the node end: the depth-counted
  scan stops at the node's end offset, and the handler returns the two bracket hides, the
  hide from the \<^verbatim>\<open>(\<close> to the node's end offset and, when the bracketed text is not
  empty, the link range over it.
\<close>

theorem link_unbalanced_parens:
  assumes v: "hasValidPosition n"
    and op: "charAt text (start_offset n) = Some CHR ''[''"
    and na: "\<not> (charAt text (start_offset n - 1) = Some CHR ''<'' \<and> charAt text (end_offset n) = Some CHR ''>'')"
    and b: "start_offset n < b" "b < end_offset n" "charAt text b = Some CHR '']''"
           "\<forall>j. start_offset n < j \<and> j < b \<longrightarrow> charAt text j \<noteq> Some CHR '']''"
    and p: "b < p" "p < end_offset n" "charAt text p = Some CHR ''(''"
           "\<forall>j. b < j \<and> j < p \<longrightarrow> link_gap (charAt text j)"
    and nb: "never_balanced (substring text (p + 1) (end_offset n))"
  shows "find_closing_paren text (p + 1) 1 (end_offset n) = end_offset n
       \<and> LinkHandler_extractDecorations n text =
           [mk Hide (start_offset n) (start_offset n + 1), mk Hide b (b + 1), mk Hide p (end_offset n)]
           @ (if start_offset n + 1 < b then [mk Link (start_offset n + 1) b] else [])"
proof -
  from op have s0: "0 \<le> start_offset n" by (simp add: charAt_def split: if_splits)
  have "0 \<le> p + 1" "p + 1 \<le> end_offset n" using s0 b p by simp_all
  from find_closing_paren_open[OF this] nb
  have fc: "find_closing_paren text (p + 1) 1 (end_offset n) = end_offset n"
    by (simp add: never_balanced_def)
  from link_inline_shape[OF v s0 op na b p] fc show ?thesis by simp
qed

theorem link_unbalanced_parens_witness:
  "LinkHandler_extractDecorations (Node ''link'' (Some (Some 0, Some 10)) None 0) ''[a](<b(c>)''
     = [mk Hide 0 1, mk Hide 2 3, mk Hide 3 10, mk Link 1 2]
   \<and> find_closing_paren ''[a](<b(c>)'' 4 1 10 = 10
   \<and> never_balanced ''<b(c>)''"
proof -
  let ?n = "Node ''link'' (Some (Some 0, Some 10)) None 0"
  let ?t = "''[a](<b(c>)''"
  have v: "hasValidPosition ?n" by (simp add: hasValidPosition_def)
  have o: "start_offset ?n = 0" "end_offset ?n = 10" by (simp_all add: start_offset_def end_offset_def)
  have op: "charAt ?t (start_offset ?n) = Some CHR ''[''" by (simp add: o charAt_def)
  have na: "\<not> (charAt ?t (start_offset ?n - 1) = Some CHR ''<'' \<and> charAt ?t (end_offset ?n) = Some CHR ''>'')"
    by (simp add: o charAt_def)
  have b1: "start_offset ?n < 2" "2 < end_offset ?n" by (simp_all add: o)
  have b2: "charAt ?t 2 = Some CHR '']''" by (simp add: charAt_def)
  have b3: "\<forall>j. start_offset ?n < j \<and> j < 2 \<longrightarrow> charAt ?t j \<noteq> Some CHR '']''"
  proof (intro allI impI)
    fix j :: int assume "start_offset ?n < j \<and> j < 2"
    then have "j = 1" by (simp add: o)
    then show "charAt ?t j \<noteq> Some CHR '']''" by (simp add: charAt_def)
  qed
  have p1: "(2::int) < 3" "3 < end_offset ?n" by (simp_all add: o)
  have p2: "charAt ?t 3 = Some CHR ''(''" by (simp add: charAt_def)
  have p3: "\<forall>j. (2::int) < j \<and> j < 3 \<longrightarrow> link_gap (charAt ?t j)" by auto
  have sub: "substring ?t (3 + 1) (end_offset ?n) = ''<b(c>)''"
    by (simp add: o substring_def clamp_def)
  have nb': "never_balanced ''<b(c>)''" by (simp add: never_balanced_def)
  then have nb: "never_balanced (substring ?t (3 + 1) (end_offset ?n))" unfolding sub .
  from link_unbalanced_parens[OF v op na b1 b2 b3 p1 p2 p3 nb] nb'
  show ?thesis by (simp add: o)
qed

text \<open>
  Claim C10 as stated fails at four nodes that satisfy its conditions (a \<^verbatim>\<open>[\<close> at the
  start, a \<^verbatim>\<open>]\<close> followed after only whitespace by a \<^verbatim>\<open>(\<close>, parentheses never
  balanced up to the node end):

  \<^item> \<^verbatim>\<open>[](<b(c>)\<close>, the bracketed text is empty: the handler returns the three hides
    and no link range;

  \<^item> \<^verbatim>\<open>[a[b]](<c(d>)\<close>, the \<^verbatim>\<open>]\<close> before the \<^verbatim>\<open>(\<close> is not the first one: the
    handler stops at the first \<^verbatim>\<open>]\<close>, finds \<^verbatim>\<open>]\<close> where it looks for the \<^verbatim>\<open>(\<close> and
    returns nothing;

  \<^item> \<^verbatim>\<open>[a]\<close>, a tab, \<^verbatim>\<open>(<b(c>)\<close>: the tab is whitespace but not one of the three
    characters the handler skips, and it returns nothing;

  \<^item> \<^verbatim>\<open><[a](<b(c>)>\<close> with the link node at offsets 1 to 11: the handler takes the
    node for an auto-link and returns the hides over the angle brackets and a link range
    over the whole node.
\<close>

theorem link_unbalanced_parens_failures:
  "charAt ''[](<b(c>)'' 0 = Some CHR ''[''
   \<and> charAt ''[](<b(c>)'' 1 = Some CHR '']''
   \<and> charAt ''[](<b(c>)'' 2 = Some CHR ''(''
   \<and> never_balanced (substring ''[](<b(c>)'' 3 9)
   \<and> find_closing_paren ''[](<b(c>)'' 3 1 9 = 9
   \<and> LinkHandler_extractDecorations (Node ''link'' (Some (Some 0, Some 9)) None 0) ''[](<b(c>)''
       = [mk Hide 0 1, mk Hide 1 2, mk Hide 2 9]
   \<and> charAt ''[a[b]](<c(d>)'' 0 = Some CHR ''[''
   \<and> charAt ''[a[b]](<c(d>)'' 5 = Some CHR '']''
   \<and> charAt ''[a[b]](<c(d>)'' 6 = Some CHR ''(''
   \<and> never_balanced (substring ''[a[b]](<c(d>)'' 7 13)
   \<and> LinkHandler_extractDecorations (Node ''link'' (Some (Some 0, Some 13)) None 0) ''[a[b]](<c(d>)'' = []
   \<and> charAt (''[a]'' @ [CHR 0x09] @ ''(<b(c>)'') 0 = Some CHR ''[''
   \<and> charAt (''[a]'' @ [CHR 0x09] @ ''(<b(c>)'') 2 = Some CHR '']''
   \<and> charAt (''[a]'' @ [CHR 0x09] @ ''(<b(c>)'') 3 = Some (CHR 0x09) \<and> is_space (CHR 0x09)
   \<and> charAt (''[a]'' @ [CHR 0x09] @ ''(<b(c>)'') 4 = Some CHR ''(''
   \<and> never_balanced (substring (''[a]'' @ [CHR 0x09] @ ''(<b(c>)'') 5 11)
   \<and> LinkHandler_extractDecorations (Node ''link'' (Some (Some 0, Some 11)) None 0)
        (''[a]'' @ [CHR 0x09] @ ''(<b(c>)'') = []
   \<and> charAt ''<[a](<b(c>)>'' 1 = Some CHR ''[''
   \<and> charAt ''<[a](<b(c>)>'' 3 = Some CHR '']''
   \<and> charAt ''<[a](<b(c>)>'' 4 = Some CHR ''(''
   \<and> never_balanced (substring ''<[a](<b(c>)>'' 5 11)
   \<and> LinkHandler_extractDecorations (Node ''link'' (Some (Some 1, Some 11)) None 0) ''<[a](<b(c>)>''
       = [mk Hide 0 1, mk Hide 11 12, mk Link 1 11]"
  by code_simp

lemma find_closing_paren_plain:
  assumes "q \<le> r" "r < e" "charAt text r = Some CHR '')''"
    and "\<forall>j. q \<le> j \<and> j < r \<longrightarrow> charAt text j \<noteq> Some CHR ''('' \<and> charAt text j \<noteq> Some CHR '')''"
  shows "find_closing_paren text q 1 e = r + 1"
  using assms
proof (induction "nat (r - q)" arbitrary: q)
  case 0
  then have q: "q = r" by simp
  have "find_closing_paren text r 1 e = find_closing_paren text (r + 1) 0 e"
    using assms(2,3) by (subst find_closing_paren.simps) simp
  also have "\<dots> = r + 1" by (subst find_closing_paren.simps) simp
  finally show ?case using q by simp
next
  case (Suc k)
  then have lt: "q < r" by linarith
  with Suc.prems have c: "charAt text q \<noteq> Some CHR ''(''" "charAt text q \<noteq> Some CHR '')''" by simp_all
  have "k = nat (r - (q + 1))" using Suc.hyps(2) by linarith
  moreover have "q + 1 \<le> r" using lt by simp
  moreover have "\<forall>j. q + 1 \<le> j \<and> j < r \<longrightarrow> charAt text j \<noteq> Some CHR ''('' \<and> charAt text j \<noteq> Some CHR '')''"
    using Suc.prems(4) by simp
  ultimately have "find_closing_paren text (q + 1) 1 e = r + 1"
    using Suc.hyps(1) Suc.prems(2,3) by blast
  moreover have "find_closing_paren text q 1 e = find_closing_paren text (q + 1) 1 e"
    using lt Suc.prems(2) c by (subst find_closing_paren.simps) simp
  ultimately show ?case by simp
qed

lemma find_opening_abort:
  assumes "pos \<le> j" "j < endOffset" "charAt text j \<noteq> Some c" "\<not> link_gap (charAt text j)"
    and "\<forall>i. pos \<le> i \<and> i < j \<longrightarrow> link_gap (charAt text i) \<and> charAt text i \<noteq> Some c"
  shows "find_opening c text pos endOffset = None"
  using assms
proof (induction "nat (j - pos)" arbitrary: pos)
  case 0
  then have "pos = j" by simp
  with assms(2-4) show ?case by (subst find_opening.simps) (simp add: link_gap_def)
next
  case (Suc k)
  then have lt: "pos < j" by linarith
  with Suc.prems have g: "link_gap (charAt text pos)" "charAt text pos \<noteq> Some c" by simp_all
  have "k = nat (j - (pos + 1))" using Suc.hyps(2) by linarith
  moreover have "pos + 1 \<le> j" using lt by simp
  moreover have "\<forall>i. pos + 1 \<le> i \<and> i < j \<longrightarrow> link_gap (charAt text i) \<and> charAt text i \<noteq> Some c"
    using Suc.prems(5) by simp
  ultimately have "find_opening c text (pos + 1) endOffset = None"
    using Suc.hyps(1) Suc.prems(2,3,4) by blast
  moreover have "find_opening c text pos endOffset = find_opening c text (pos + 1) endOffset"
    using lt Suc.prems(2) g by (subst find_opening.simps) (auto simp: link_gap_def)
  ultimately show ?case by simp
qed

text \<open>
  Outside the auto-link case the handler treats the standard form as expected: for a
  node \<^verbatim>\<open>[text](url)\<close> with a non-empty text without \<^verbatim>\<open>]\<close> and a URL part without
  parentheses, it returns the hides over \<^verbatim>\<open>[\<close>, over \<^verbatim>\<open>]\<close> and over the whole of
  \<^verbatim>\<open>(url)\<close>, and the link range over exactly the text.
\<close>

lemma link_standard_form:
  assumes v: "hasValidPosition n"
    and s0: "0 \<le> start_offset n"
    and na: "\<not> (charAt text (start_offset n - 1) = Some CHR ''<'' \<and> charAt text (end_offset n) = Some CHR ''>'')"
    and op: "charAt text (start_offset n) = Some CHR ''[''"
    and b: "start_offset n + 1 < b" "charAt text b = Some CHR '']''"
           "\<forall>j. start_offset n < j \<and> j < b \<longrightarrow> charAt text j \<noteq> Some CHR '']''"
    and p: "charAt text (b + 1) = Some CHR ''(''"
    and cl: "b + 1 < end_offset n - 1" "charAt text (end_offset n - 1) = Some CHR '')''"
            "\<forall>j. b + 1 < j \<and> j < end_offset n - 1 \<longrightarrow>
                 charAt text j \<noteq> Some CHR ''('' \<and> charAt text j \<noteq> Some CHR '')''"
  shows "LinkHandler_extractDecorations n text =
           [mk Hide (start_offset n) (start_offset n + 1), mk Hide b (b + 1),
            mk Hide (b + 1) (end_offset n), mk Link (start_offset n + 1) b]"
proof -
  let ?s = "start_offset n" and ?e = "end_offset n"
  have "find_closing_paren text (b + 1 + 1) 1 ?e = (?e - 1) + 1"
    using cl by (intro find_closing_paren_plain) auto
  then have fc: "find_closing_paren text (b + 1 + 1) 1 ?e = ?e" by simp
  have "LinkHandler_extractDecorations n text =
           [mk Hide ?s (?s + 1), mk Hide b (b + 1),
            mk Hide (b + 1) (find_closing_paren text (b + 1 + 1) 1 ?e)]
           @ (if ?s + 1 < b then [mk Link (?s + 1) b] else [])"
    using v s0 op na b cl(1) p by (intro link_inline_shape) auto
  with fc b(1) show ?thesis by simp
qed

text \<open>
  Outside the auto-link case, a character other than space, line feed and carriage return
  between the \<^verbatim>\<open>]\<close> and the \<^verbatim>\<open>(\<close> makes the handler return nothing.
\<close>

lemma link_gap_abort:
  assumes v: "hasValidPosition n"
    and na: "\<not> (charAt text (start_offset n - 1) = Some CHR ''<'' \<and> charAt text (end_offset n) = Some CHR ''>'')"
    and op: "charAt text (start_offset n) = Some CHR ''[''"
    and b: "start_offset n < b" "charAt text b = Some CHR '']''"
           "\<forall>j. start_offset n < j \<and> j < b \<longrightarrow> charAt text j \<noteq> Some CHR '']''"
    and j: "b < j" "j < end_offset n" "charAt text j \<noteq> Some CHR ''(''" "\<not> link_gap (charAt text j)"
           "\<forall>i. b < i \<and> i < j \<longrightarrow> link_gap (charAt text i)"
  shows "LinkHandler_extractDecorations n text = []"
proof -
  let ?s = "start_offset n" and ?e = "end_offset n"
  have case1: "((if ?s > 0 then charAt text (?s - 1) else None) = Some CHR ''<''
                 \<and> (if ?e < int (length text) then charAt text ?e else None) = Some CHR ''>'') = False"
    using na by (auto split: if_splits)
  have case2: "((if ?s < int (length text) then charAt text ?s else None) = Some CHR ''<''
                 \<and> (if ?e > 0 then charAt text (?e - 1) else None) = Some CHR ''>'') = False"
    using op by (auto split: if_splits)
  have be: "scan_forward not_closing_bracket text (?s + 1) ?e = b"
    using b j(1,2) by (intro scan_forward_first) (auto simp: not_closing_bracket_def)
  have "link_gap (charAt text i) \<and> charAt text i \<noteq> Some CHR ''(''" if "b + 1 \<le> i \<and> i < j" for i
  proof -
    from that j(5) have "link_gap (charAt text i)" by simp
    then show ?thesis by (auto simp: link_gap_def)
  qed
  then have "\<forall>i. b + 1 \<le> i \<and> i < j \<longrightarrow> link_gap (charAt text i) \<and> charAt text i \<noteq> Some CHR ''(''"
    by blast
  with j have fo: "find_opening CHR ''('' text (b + 1) ?e = None"
    by (intro find_opening_abort[of _ j]) auto
  show ?thesis
    unfolding LinkHandler_extractDecorations_def Let_def case1 case2
    using v be fo by simp
qed

text \<open>
  Claim C5. For a link node of the standard inline form \<^verbatim>\<open>[text](url)\<close> with a
  non-empty text, the handler should return a hide over \<^verbatim>\<open>[\<close>, a hide over
  \<^verbatim>\<open>]\<close>, one hide over the whole of \<^verbatim>\<open>(url)\<close> and a link range over exactly the
  text, and never a link range over the URL. The handler does not do so when the link is
  directly enclosed in angle brackets: in \<^verbatim>\<open><[a](b)>\<close> the link node spans offsets
  1 to 7; the handler takes it for an auto-link, hides the two angle brackets and puts
  the link range over the whole of \<^verbatim>\<open>[a](b)\<close>, URL included.
\<close>

theorem link_in_angle_brackets:
  "LinkHandler_extractDecorations (Node ''link'' (Some (Some 1, Some 7)) None 0) ''<[a](b)>''
     = [mk Hide 0 1, mk Hide 7 8, mk Link 1 7]"
  by code_simp

section \<open>Nodes without a resolvable position\<close>

text \<open>
  Claim C6. When the position of a node is missing, or its start or its end offset is
  undefined or null, each of the twelve construct handlers returns the empty list. The
  handlers are total functions: none of them has a path that throws on such a node.
\<close>

theorem handlers_skip_invalid_position:
  assumes "position n = None \<or> (\<exists>s e. position n = Some (s, e) \<and> (s = None \<or> e = None))"
  shows "extractDecorations h n text = []"
proof -
  from assms have nv: "\<not> hasValidPosition n"
    by (auto simp: hasValidPosition_def)
  show ?thesis
    by (cases h)
       (simp_all add: nv HeadingHandler_extractDecorations_def StrongHandler_extractDecorations_def
          EmphasisHandler_extractDecorations_def InlineCodeHandler_extractDecorations_def
          CodeBlockHandler_extractDecorations_def BlockquoteHandler_extractDecorations_def
          HorizontalRuleHandler_extractDecorations_def DeleteHandler_extractDecorations_def
          LinkHandler_extractDecorations_def ImageHandler_extractDecorations_def
          LinkReferenceHandler_extractDecorations_def ImageReferenceHandler_extractDecorations_def)
qed

theorem handlers_skip_invalid_position_witness:
  "extractDecorations LinkHandler (Node ''link'' None None 0) ''[a](b)'' = []
   \<and> extractDecorations HeadingHandler (Node ''heading'' (Some (None, Some 3)) None 1) ''# a'' = []
   \<and> extractDecorations InlineCodeHandler (Node ''inlineCode'' (Some (Some 0, None)) None 0) ''`a`'' = []"
  using handlers_skip_invalid_position[of "Node ''link'' None None 0" LinkHandler "''[a](b)''"]
        handlers_skip_invalid_position[of "Node ''heading'' (Some (None, Some 3)) None 1" HeadingHandler "''# a''"]
        handlers_skip_invalid_position[of "Node ''inlineCode'' (Some (Some 0, None)) None 0" InlineCodeHandler "''`a`''"]
  by simp

section \<open>Headings that consist of the marker only\<close>

lemma hash_not_space: "\<not> is_space CHR ''#''"
  by (simp add: is_space_def)

lemma takeWhile_all: "\<forall>c \<in> set w. P c \<Longrightarrow> \<not> P x \<Longrightarrow> takeWhile P (w @ x # r) = w"
  by (induction w) auto

lemma dropWhile_all: "\<forall>c \<in> set w. P c \<Longrightarrow> \<not> P x \<Longrightarrow> dropWhile P (w @ x # r) = x # r"
  by (induction w) auto

lemma takeWhile_all_nil: "\<forall>c \<in> set w. P c \<Longrightarrow> takeWhile P w = w"
  by (induction w) auto

lemma dropWhile_all_nil: "\<forall>c \<in> set w. P c \<Longrightarrow> dropWhile P w = []"
  by (induction w) auto

lemma takeWhile_hash_run:
  assumes "\<forall>c \<in> set w2. is_space c"
  shows "takeWhile (\<lambda>c. c = CHR ''#'') (replicate k CHR ''#'' @ w2) = replicate k CHR ''#''"
proof -
  have "takeWhile (\<lambda>c. c = CHR ''#'') w2 = []"
  proof (cases w2)
    case Nil
    then show ?thesis by simp
  next
    case (Cons x xs)
    with assms have "is_space x" by simp
    with hash_not_space have "x \<noteq> CHR ''#''" by auto
    with Cons show ?thesis by simp
  qed
  then show ?thesis by (induction k) auto
qed

lemma marker_only_parts:
  assumes w1: "\<forall>c \<in> set w1. is_space c" and k: "1 \<le> k" "k \<le> 6" and w2: "\<forall>c \<in> set w2. is_space c"
    and s: "s = w1 @ replicate k CHR ''#'' @ w2"
  shows "HEADING_MARKER_PATTERN s = (if w2 = [] then None else Some (length w1, k, length w2))"
    and "emptyHeadingPattern (trim s)"
proof -
  obtain k' where k': "k = Suc k'" using k(1) by (cases k) auto
  have s': "s = w1 @ CHR ''#'' # (replicate k' CHR ''#'' @ w2)" using s k' by simp
  have tw: "takeWhile is_space s = w1"
    unfolding s' using w1 hash_not_space by (rule takeWhile_all)
  have dw: "dropWhile is_space s = replicate k CHR ''#'' @ w2"
    using dropWhile_all[OF w1 hash_not_space, of "replicate k' CHR ''#'' @ w2"] s' k' by simp
  have run: "takeWhile (\<lambda>c. c = CHR ''#'') (replicate k CHR ''#'' @ w2) = replicate k CHR ''#''"
    using w2 by (rule takeWhile_hash_run)
  have g2: "take 6 (replicate k CHR ''#'') = replicate k CHR ''#''" using k(2) by simp
  have tw2: "takeWhile is_space w2 = w2" using w2 by (rule takeWhile_all_nil)
  have r2: "drop (length (replicate k CHR ''#'')) (replicate k CHR ''#'' @ w2) = w2" by simp
  show "HEADING_MARKER_PATTERN s = (if w2 = [] then None else Some (length w1, k, length w2))"
    unfolding HEADING_MARKER_PATTERN_def Let_def tw dw run g2 r2 tw2
    using k(1) by (cases w2) simp_all
  have "rev s = rev w2 @ CHR ''#'' # (replicate k' CHR ''#'' @ rev w1)"
    using s k' by (simp add: replicate_append_same)
  moreover have "\<forall>c \<in> set (rev w2). is_space c" using w2 by simp
  ultimately have "dropWhile is_space (rev (dropWhile is_space s)) = replicate k CHR ''#''"
    unfolding dw using dropWhile_all[of "rev w2" is_space "CHR ''#''" "replicate k' CHR ''#''"] hash_not_space k'
    by (simp add: replicate_append_same)
  then have tr: "trim s = replicate k CHR ''#''" by (simp add: trim_def)
  have run0: "takeWhile (\<lambda>c. c = CHR ''#'') (replicate k CHR ''#'') = replicate k CHR ''#''"
    using takeWhile_hash_run[of "[]" k] by simp
  have dw0: "dropWhile is_space (replicate k CHR ''#'') = replicate k CHR ''#''"
    using k' hash_not_space by simp
  show "emptyHeadingPattern (trim s)"
    unfolding emptyHeadingPattern_def tr Let_def dw0 run0 g2
    using k(1) by simp
qed

lemma substring_rest_empty:
  assumes "0 \<le> s" "s \<le> e" "substring text s e \<noteq> []"
  shows "substring text (s + int (length (substring text s e))) e = []"
proof -
  let ?L = "int (length text)"
  have cs: "clamp text s = nat (min s ?L)" using assms(1) by (simp add: clamp_def max_def)
  have ce: "clamp text e = nat (min e ?L)" using assms(1,2) by (simp add: clamp_def max_def)
  have le: "clamp text s \<le> clamp text e" using assms cs ce by simp
  have ub: "clamp text e \<le> length text" by (simp add: clamp_def)
  have mn: "min (clamp text s) (clamp text e) = clamp text s"
    and mx: "max (clamp text s) (clamp text e) = clamp text e" using le by simp_all
  have len: "length (substring text s e) = clamp text e - clamp text s"
    unfolding substring_def Let_def mn mx using ub by simp
  from assms(3) have "0 < length (substring text s e)" by simp
  with len have lt: "clamp text s < clamp text e" by simp
  then have "s < ?L" using cs ce assms by (simp add: min_def split: if_splits)
  then have cs': "clamp text s = nat s" using cs by (simp add: min_def)
  have "s + int (length (substring text s e)) = int (clamp text e)"
    using len lt cs' assms(1) by simp
  moreover have "clamp text (int (clamp text e)) = clamp text e"
    using ce by (simp add: clamp_def)
  ultimately show ?thesis by (simp add: substring_def Let_def)
qed

lemma heading_marker_only_empty:
  assumes v: "hasValidPosition n" and s0: "0 \<le> start_offset n"
    and m: "marker_only (substring text (start_offset n) (end_offset n))"
  shows "HeadingHandler_extractDecorations n text = []"
proof -
  let ?s = "start_offset n" and ?e = "end_offset n"
  let ?h = "substring text ?s ?e"
  from m obtain w1 k w2 where w1: "\<forall>c \<in> set w1. is_space c" and k: "1 \<le> k" "k \<le> 6"
    and w2: "\<forall>c \<in> set w2. is_space c" and h: "?h = w1 @ replicate k CHR ''#'' @ w2"
    by (auto simp: marker_only_def)
  note p = marker_only_parts[OF w1 k w2 h]
  show ?thesis
  proof (cases "w2 = []")
    case True
    with p show ?thesis using v
      by (simp add: HeadingHandler_extractDecorations_def Let_def isHeadingEmpty_def)
  next
    case False
    with p(1) have mm: "HEADING_MARKER_PATTERN ?h = Some (length w1, k, length w2)" by simp
    have cs: "getContentStart (length w1, k, length w2) ?s = ?s + int (length ?h)"
      by (simp add: getContentStart_def h)
    have ne: "?h \<noteq> []" using h k by auto
    have "?s + int (length ?h) \<ge> ?e \<or> isEmptyContent text (?s + int (length ?h)) ?e"
    proof (cases "?s \<le> ?e")
      case True
      from substring_rest_empty[OF s0 True ne] show ?thesis
        by (simp add: isEmptyContent_def trim_def)
    next
      case False
      then show ?thesis by simp
    qed
    with mm cs v show ?thesis
      by (simp add: HeadingHandler_extractDecorations_def Let_def)
  qed
qed

lemma take_takeWhile_split:
  "xs = take n (takeWhile P xs) @ drop (length (take n (takeWhile P xs))) xs"
proof -
  let ?m = "length (take n (takeWhile P xs))"
  have m: "?m \<le> length (takeWhile P xs)" by simp
  have "take ?m xs = take ?m (takeWhile P xs @ dropWhile P xs)" by simp
  also have "\<dots> = take ?m (takeWhile P xs)" using m by (simp del: takeWhile_dropWhile_id)
  also have "\<dots> = take n (takeWhile P xs)" by (simp add: min_def)
  finally have "take ?m xs = take n (takeWhile P xs)" .
  then have "take n (takeWhile P xs) @ drop ?m xs = take ?m xs @ drop ?m xs" by simp
  then show ?thesis by simp
qed

lemma marker_match_decompose:
  assumes "HEADING_MARKER_PATTERN s = Some (a, b, c)"
  shows "\<exists>w1 w3. (\<forall>x \<in> set w1. is_space x) \<and> (\<forall>x \<in> set w3. is_space x) \<and> 1 \<le> b \<and> b \<le> 6
           \<and> length w1 = a \<and> length w3 = c
           \<and> s = w1 @ replicate b CHR ''#'' @ w3 @ drop (a + b + c) s"
proof -
  define g1 where "g1 = takeWhile is_space s"
  define r1 where "r1 = dropWhile is_space s"
  define g2 where "g2 = take 6 (takeWhile (\<lambda>c. c = CHR ''#'') r1)"
  define r2 where "r2 = drop (length g2) r1"
  define g3 where "g3 = takeWhile is_space r2"
  define rest where "rest = dropWhile is_space r2"
  have eq: "HEADING_MARKER_PATTERN s =
      (if 1 \<le> length g2 \<and> 1 \<le> length g3 then Some (length g1, length g2, length g3) else None)"
    unfolding HEADING_MARKER_PATTERN_def Let_def g1_def r1_def g2_def r2_def g3_def by (rule refl)
  from assms eq have a: "a = length g1" and b: "b = length g2" and c: "c = length g3"
    and b1: "1 \<le> length g2"
    by (simp_all split: if_splits)
  have "\<forall>x \<in> set g2. x = CHR ''#''"
    unfolding g2_def by (auto dest!: in_set_takeD set_takeWhileD)
  then have g2r: "g2 = replicate b CHR ''#''" unfolding b by (simp add: replicate_eqI)
  have b6: "b \<le> 6" unfolding b g2_def by simp
  have s1: "s = g1 @ r1" unfolding g1_def r1_def by simp
  have s2: "r1 = g2 @ r2" unfolding g2_def r2_def by (rule take_takeWhile_split)
  have s3: "r2 = g3 @ rest" unfolding g3_def rest_def by simp
  have s: "s = (g1 @ g2 @ g3) @ rest" using s1 s2 s3 by simp
  have "length (g1 @ g2 @ g3) = a + b + c" using a b c by simp
  then have "drop (a + b + c) ((g1 @ g2 @ g3) @ rest) = rest" by (metis append_eq_conv_conj)
  then have d: "drop (a + b + c) s = rest" using s by simp
  have sp1: "\<forall>x \<in> set g1. is_space x" unfolding g1_def by (auto dest: set_takeWhileD)
  have sp3: "\<forall>x \<in> set g3. is_space x" unfolding g3_def by (auto dest: set_takeWhileD)
  have "s = g1 @ replicate b CHR ''#'' @ g3 @ drop (a + b + c) s"
    using s g2r d by simp
  with sp1 sp3 b1 b6 a b c show ?thesis by (intro exI[of _ g1] exI[of _ g3]) simp
qed

text \<open>
  Claim C7. For a heading node with a position at a non-negative start offset: when its
  raw text is only the marker of one to six \<^verbatim>\<open>#\<close> with whitespace around it, and
  when the marker pattern matches and only whitespace follows the matched marker, the
  heading handler returns no decoration.
\<close>

theorem heading_marker_without_content:
  assumes "hasValidPosition n" and "0 \<le> start_offset n"
  shows "(marker_only (substring text (start_offset n) (end_offset n))
            \<longrightarrow> HeadingHandler_extractDecorations n text = [])
       \<and> (\<forall>a b c. HEADING_MARKER_PATTERN (substring text (start_offset n) (end_offset n)) = Some (a, b, c)
            \<and> (\<forall>x \<in> set (drop (a + b + c) (substring text (start_offset n) (end_offset n))). is_space x)
            \<longrightarrow> HeadingHandler_extractDecorations n text = [])"
proof (intro conjI allI impI)
  assume "marker_only (substring text (start_offset n) (end_offset n))"
  with assms show "HeadingHandler_extractDecorations n text = []"
    by (rule heading_marker_only_empty)
next
  fix a b c
  let ?h = "substring text (start_offset n) (end_offset n)"
  assume h: "HEADING_MARKER_PATTERN ?h = Some (a, b, c) \<and> (\<forall>x \<in> set (drop (a + b + c) ?h). is_space x)"
  from marker_match_decompose[of ?h a b c] h obtain w1 w3 where
    w: "\<forall>x \<in> set w1. is_space x" "\<forall>x \<in> set w3. is_space x" "1 \<le> b" "b \<le> 6"
       "?h = w1 @ replicate b CHR ''#'' @ w3 @ drop (a + b + c) ?h" by blast
  from w(2) h have "\<forall>x \<in> set (w3 @ drop (a + b + c) ?h). is_space x" by auto
  with w have "marker_only ?h" unfolding marker_only_def by blast
  with assms show "HeadingHandler_extractDecorations n text = []"
    by (rule heading_marker_only_empty)
qed

theorem heading_marker_without_content_witness:
  "hasValidPosition (Node ''heading'' (Some (Some 0, Some 2)) None 1)
   \<and> 0 \<le> start_offset (Node ''heading'' (Some (Some 0, Some 2)) None 1)
   \<and> marker_only ''# ''
   \<and> HEADING_MARKER_PATTERN ''# '' = Some (0, 1, 1)
   \<and> HeadingHandler_extractDecorations (Node ''heading'' (Some (Some 0, Some 2)) None 1) ''# '' = []"
proof -
  let ?n = "Node ''heading'' (Some (Some 0, Some 2)) None 1"
  have v: "hasValidPosition ?n" by (simp add: hasValidPosition_def)
  have s0: "0 \<le> start_offset ?n" by (simp add: start_offset_def)
  have sub: "substring ''# '' (start_offset ?n) (end_offset ?n) = ''# ''"
    by (simp add: substring_def clamp_def start_offset_def end_offset_def)
  have "''# '' = [] @ replicate 1 CHR ''#'' @ '' ''" by simp
  moreover have "\<forall>c \<in> set '' ''. is_space c" by (simp add: is_space_def)
  ultimately have m: "marker_only ''# ''"
    unfolding marker_only_def by (intro exI[of _ "[]"] exI[of _ 1] exI[of _ "'' ''"]) simp
  have p: "HEADING_MARKER_PATTERN ''# '' = Some (0, 1, 1)"
    by (simp add: HEADING_MARKER_PATTERN_def is_space_def)
  from heading_marker_without_content[OF v s0, of "''# ''"] m sub
  have "HeadingHandler_extractDecorations ?n ''# '' = []" by simp
  with v s0 m p show ?thesis by simp
qed

section \<open>The highlight scanner pairs successive delimiters\<close>

lemma find_sub_Some:
  "find_sub pat s = Some k \<Longrightarrow> take (length pat) (drop k s) = pat \<and> (\<forall>j<k. take (length pat) (drop j s) \<noteq> pat)"
proof (induction s arbitrary: k)
  case Nil
  then show ?case by (simp split: if_splits)
next
  case (Cons c cs)
  show ?case
  proof (cases "take (length pat) (c # cs) = pat")
    case True
    with Cons.prems show ?thesis by simp
  next
    case False
    with Cons.prems obtain j where j: "find_sub pat cs = Some j" "k = Suc j" by auto
    from Cons.IH[OF j(1)] have ih: "take (length pat) (drop j cs) = pat"
      "\<forall>i<j. take (length pat) (drop i cs) \<noteq> pat" by auto
    have "\<forall>i<k. take (length pat) (drop i (c # cs)) \<noteq> pat"
    proof (intro allI impI)
      fix i assume "i < k"
      show "take (length pat) (drop i (c # cs)) \<noteq> pat"
      proof (cases i)
        case 0
        with False show ?thesis by simp
      next
        case (Suc i')
        with \<open>i < k\<close> j(2) ih(2) show ?thesis by simp
      qed
    qed
    with ih(1) j(2) show ?thesis by simp
  qed
qed

lemma find_sub_None:
  "find_sub pat s = None \<Longrightarrow> j \<le> length s \<Longrightarrow> take (length pat) (drop j s) \<noteq> pat"
proof (induction s arbitrary: j)
  case Nil
  then show ?case by (auto split: if_splits)
next
  case (Cons c cs)
  from Cons.prems(1) have ne: "take (length pat) (c # cs) \<noteq> pat" and n: "find_sub pat cs = None"
    by (auto split: if_splits)
  show ?case
  proof (cases j)
    case 0
    with ne show ?thesis by simp
  next
    case (Suc j')
    with Cons.prems(2) Cons.IH[OF n, of j'] show ?thesis by simp
  qed
qed

lemma is_delim_take:
  "0 \<le> i \<Longrightarrow> is_delim text i \<longleftrightarrow> take 2 (drop (nat i) text) = ''==''"
proof -
  assume i: "0 \<le> i"
  show ?thesis
  proof (cases "nat i + 1 < length text")
    case True
    then obtain a b r where d: "drop (nat i) text = a # b # r"
      by (metis Cons_nth_drop_Suc Suc_eq_plus1 add_lessD1)
    from True have a: "text ! nat i = a" using d by (metis nth_via_drop)
    from True d have b: "text ! (nat i + 1) = b"
      by (metis Cons_nth_drop_Suc Suc_eq_plus1 add_lessD1 list.inject nth_via_drop drop_Suc tl_drop list.sel(3))
    have n1: "nat (i + 1) = nat i + 1" using i by simp
    from True i a b d n1 show ?thesis by (auto simp: is_delim_def charAt_def)
  next
    case False
    then have "length (drop (nat i) text) < 2" by simp
    then have "take 2 (drop (nat i) text) \<noteq> ''==''"
      by (metis length_take min.absorb2 less_le_not_le nat_less_le length_Cons list.size(3) numeral_2_eq_2 take_all_iff)
    moreover from False i have "\<not> is_delim text i" by (auto simp: is_delim_def charAt_def)
    ultimately show ?thesis by simp
  qed
qed

lemma indexOf_first_delim:
  assumes "0 \<le> pos" "indexOf text ''=='' pos \<noteq> -1"
  shows "first_delim text pos (indexOf text ''=='' pos)"
proof (cases "pos \<le> int (length text)")
  case True
  with assms(1) have cl: "clamp text pos = nat pos" by (simp add: clamp_def)
  from assms(2) obtain k where k: "find_sub ''=='' (drop (nat pos) text) = Some k"
    unfolding indexOf_def cl by (auto split: option.splits)
  then have ix: "indexOf text ''=='' pos = pos + int k" using assms(1) unfolding indexOf_def cl by simp
  from find_sub_Some[OF k] have t: "take 2 (drop (nat pos + k) text) = ''==''"
    and m: "\<forall>j<k. take 2 (drop (nat pos + j) text) \<noteq> ''==''" by (simp_all add: add.commute numeral_2_eq_2)
  have n: "nat (pos + int k) = nat pos + k" using assms(1) by (simp add: nat_add_distrib)
  have d: "is_delim text (pos + int k)" using t assms(1) by (simp add: is_delim_take n)
  have "\<not> is_delim text j" if "pos \<le> j" "j < pos + int k" for j
  proof -
    have "nat (j - pos) < k" using that by linarith
    with m have "take 2 (drop (nat pos + nat (j - pos)) text) \<noteq> ''==''" by blast
    moreover have "nat pos + nat (j - pos) = nat j" using that assms(1) by linarith
    ultimately show ?thesis using that assms(1) by (simp add: is_delim_take)
  qed
  with d ix show ?thesis by (simp add: first_delim_def)
next
  case False
  then have cl: "clamp text pos = length text" by (simp add: clamp_def)
  with assms(2) show ?thesis by (simp add: indexOf_def)
qed

lemma indexOf_none:
  assumes "0 \<le> pos" "indexOf text ''=='' pos = -1" "pos \<le> j"
  shows "\<not> is_delim text j"
proof (cases "j + 1 < int (length text)")
  case True
  with assms have cl: "clamp text pos = nat pos" by (simp add: clamp_def)
  from assms(2) assms(1) have k: "find_sub ''=='' (drop (nat pos) text) = None"
    unfolding indexOf_def cl by (cases "find_sub ''=='' (drop (nat pos) text)") simp_all
  have "nat (j - pos) \<le> length (drop (nat pos) text)" using True assms by simp
  from find_sub_None[OF k this] have "take 2 (drop (nat pos + nat (j - pos)) text) \<noteq> ''==''"
    by (simp add: add.commute numeral_2_eq_2)
  moreover have "nat pos + nat (j - pos) = nat j" using assms by linarith
  ultimately show ?thesis using assms by (simp add: is_delim_take)
next
  case False
  then show ?thesis by (auto simp: is_delim_def charAt_def)
qed

lemma first_delim_unique: "first_delim text pos k \<Longrightarrow> first_delim text pos k' \<Longrightarrow> k = k'"
  unfolding first_delim_def by (metis linorder_neqE_linordered_idom)

lemma first_delim_indexOf:
  assumes "0 \<le> pos" "first_delim text pos k"
  shows "indexOf text ''=='' pos = k"
proof (cases "indexOf text ''=='' pos = -1")
  case True
  from assms(2) have "pos \<le> k" "is_delim text k" by (simp_all add: first_delim_def)
  with indexOf_none[OF assms(1) True] show ?thesis by blast
next
  case False
  from indexOf_first_delim[OF assms(1) False] assms(2) show ?thesis
    by (rule first_delim_unique)
qed

lemma no_delim_indexOf:
  assumes "0 \<le> pos" "\<forall>j\<ge>pos. \<not> is_delim text j"
  shows "indexOf text ''=='' pos = -1"
proof (rule ccontr)
  assume "indexOf text ''=='' pos \<noteq> -1"
  from indexOf_first_delim[OF assms(1) this] assms(2) show False
    by (auto simp: first_delim_def)
qed

lemma is_delim_inside: "is_delim text j \<Longrightarrow> j + 1 < int (length text)"
  by (simp add: is_delim_def charAt_def split: if_splits)

lemma highlight_loop_pairs:
  "0 \<le> pos \<Longrightarrow> successive_pairs text pos ps
     \<Longrightarrow> HighlightHandler_loop text pos ds = ds @ concat (map pair_ranges ps)"
proof (induction ps arbitrary: pos ds)
  case Nil
  show ?case
  proof (cases "pos < int (length text)")
    case False
    then show ?thesis by simp
  next
    case True
    from Nil.prems(2) consider (a) "\<forall>j\<ge>pos. \<not> is_delim text j"
      | (b) openIndex where "first_delim text pos openIndex" "\<forall>j\<ge>openIndex + 2. \<not> is_delim text j"
      by auto
    then show ?thesis
    proof cases
      case a
      from no_delim_indexOf[OF Nil.prems(1) a] True show ?thesis by simp
    next
      case b
      from b(1) Nil.prems(1) have o: "indexOf text ''=='' pos = openIndex"
        using first_delim_indexOf by blast
      from b(1) Nil.prems(1) have "0 \<le> openIndex + 2" by (simp add: first_delim_def)
      from no_delim_indexOf[OF this b(2)] have "indexOf text ''=='' (openIndex + 2) = -1" .
      with o True show ?thesis by simp
    qed
  qed
next
  case (Cons pair pairs)
  obtain openIndex closeIndex where pr: "pair = (openIndex, closeIndex)" by (cases pair)
  from Cons.prems(2) pr have f: "first_delim text pos openIndex"
    "first_delim text (openIndex + 2) closeIndex" "successive_pairs text (closeIndex + 2) pairs"
    by simp_all
  from f(1) have "pos \<le> openIndex" "is_delim text openIndex" by (simp_all add: first_delim_def)
  with is_delim_inside[of "text" openIndex] have lt: "pos < int (length text)" by simp
  have o: "indexOf text ''=='' pos = openIndex" using first_delim_indexOf[OF Cons.prems(1) f(1)] .
  from f(1) Cons.prems(1) have o0: "0 \<le> openIndex" "0 \<le> openIndex + 2" by (simp_all add: first_delim_def)
  have c: "indexOf text ''=='' (openIndex + 2) = closeIndex" using first_delim_indexOf[OF o0(2) f(2)] .
  from f(2) have c0: "openIndex + 2 \<le> closeIndex" by (simp add: first_delim_def)
  with o0 have ne: "openIndex \<noteq> -1" "closeIndex \<noteq> -1" "0 \<le> closeIndex + 2" by simp_all
  have step: "HighlightHandler_loop text pos ds =
            HighlightHandler_loop text (closeIndex + 2) (ds @ pair_ranges pair)"
    by (subst HighlightHandler_loop.simps)
       (simp add: o c ne lt Let_def pair_ranges_def pr del: HighlightHandler_loop.simps)
  from Cons.IH[OF ne(3) f(3)] step show ?case by simp
qed

lemma successive_pairs_exist: "0 \<le> pos \<Longrightarrow> \<exists>ps. successive_pairs text pos ps"
proof (induction "nat (int (length text) - pos)" arbitrary: pos rule: less_induct)
  case less
  show ?case
  proof (cases "pos < int (length text)")
    case False
    have "\<forall>j\<ge>pos. \<not> is_delim text j"
    proof (intro allI impI)
      fix j assume "pos \<le> j"
      with False is_delim_inside[of "text" j] show "\<not> is_delim text j" by auto
    qed
    then have "successive_pairs text pos []" by simp
    then show ?thesis ..
  next
    case True
    show ?thesis
    proof (cases "indexOf text ''=='' pos = -1")
      case n: True
      from indexOf_none[OF less.prems n] have "successive_pairs text pos []" by simp
      then show ?thesis ..
    next
      case o: False
      define openIndex where "openIndex = indexOf text ''=='' pos"
      from indexOf_first_delim[OF less.prems o] have f1: "first_delim text pos openIndex"
        by (simp add: openIndex_def)
      then have o2: "0 \<le> openIndex + 2" "pos \<le> openIndex" using less.prems by (simp_all add: first_delim_def)
      show ?thesis
      proof (cases "indexOf text ''=='' (openIndex + 2) = -1")
        case n: True
        from indexOf_none[OF o2(1) n] f1 have "successive_pairs text pos []" by auto
        then show ?thesis ..
      next
        case c: False
        define closeIndex where "closeIndex = indexOf text ''=='' (openIndex + 2)"
        from indexOf_first_delim[OF o2(1) c] have f2: "first_delim text (openIndex + 2) closeIndex"
          by (simp add: closeIndex_def)
        then have c2: "0 \<le> closeIndex + 2" "openIndex + 2 \<le> closeIndex"
          using o2 by (simp_all add: first_delim_def)
        have "nat (int (length text) - (closeIndex + 2)) < nat (int (length text) - pos)"
          using True c2 o2 by linarith
        from less.hyps[OF this c2(1)]
        obtain ps where "successive_pairs text (closeIndex + 2) ps" ..
        with f1 f2 have "successive_pairs text pos ((openIndex, closeIndex) # ps)" by simp
        then show ?thesis ..
      qed
    qed
  qed
qed

text \<open>
  Claim C8. For every text there is a pairing of its \<^verbatim>\<open>==\<close> delimiters as the claim
  describes it (\<open>successive_pairs\<close>, read from offset 0), and the list returned by
  \<^verbatim>\<open>HighlightHandler.extractDecorations\<close> is exactly, pair after pair, the two
  2-character hide ranges over the delimiters and the highlight range over the interior
  for each pair with at least one character between its delimiters, and nothing for a
  pair with none; each pair is looked for from just past the closing delimiter of the
  one before. An opening \<^verbatim>\<open>==\<close> with no \<^verbatim>\<open>==\<close> after it gives the empty list.
\<close>

theorem highlight_scanner_pairs:
  "(\<exists>pairs. successive_pairs text 0 pairs)
   \<and> (\<forall>pairs. successive_pairs text 0 pairs \<longrightarrow>
         HighlightHandler_extractDecorations text = concat (map pair_ranges pairs))
   \<and> (\<forall>openIndex. first_delim text 0 openIndex \<and> (\<forall>j\<ge>openIndex + 2. \<not> is_delim text j) \<longrightarrow>
         HighlightHandler_extractDecorations text = [])"
proof (intro conjI allI impI)
  show "\<exists>pairs. successive_pairs text 0 pairs" by (rule successive_pairs_exist) simp
next
  fix pairs assume "successive_pairs text 0 pairs"
  from highlight_loop_pairs[OF _ this, of "[]"]
  show "HighlightHandler_extractDecorations text = concat (map pair_ranges pairs)"
    by (simp add: HighlightHandler_extractDecorations_def)
next
  fix openIndex
  assume "first_delim text 0 openIndex \<and> (\<forall>j\<ge>openIndex + 2. \<not> is_delim text j)"
  then have "successive_pairs text 0 []" by auto
  from highlight_loop_pairs[OF _ this, of "[]"]
  show "HighlightHandler_extractDecorations text = []"
    by (simp add: HighlightHandler_extractDecorations_def)
qed

theorem highlight_scanner_pairs_witness:
  "HighlightHandler_extractDecorations ''==a== ==b==''
     = [mk Hide 0 2, mk Hide 3 5, mk Highlight 2 3, mk Hide 6 8, mk Hide 9 11, mk Highlight 8 9]
   \<and> HighlightHandler_extractDecorations ''==a====x''
     = [mk Hide 0 2, mk Hide 3 5, mk Highlight 2 3]
   \<and> HighlightHandler_extractDecorations ''==open'' = []
   \<and> HighlightHandler_extractDecorations ''plain'' = []"
proof -
  let ?t = "''==a== ==b==''"
  have i1: "indexOf ?t ''=='' 0 = 0" "indexOf ?t ''=='' (0 + 2) = 3"
    "indexOf ?t ''=='' (3 + 2) = 6" "indexOf ?t ''=='' (6 + 2) = 9" "indexOf ?t ''=='' (9 + 2) = -1"
    by (simp_all add: indexOf_def clamp_def)
  have f: "first_delim ?t 0 0" "first_delim ?t (0 + 2) 3" "first_delim ?t (3 + 2) 6"
    "first_delim ?t (6 + 2) 9"
    using indexOf_first_delim[of 0 ?t] indexOf_first_delim[of "0 + 2" ?t]
      indexOf_first_delim[of "3 + 2" ?t] indexOf_first_delim[of "6 + 2" ?t] i1 by simp_all
  have e: "\<forall>j\<ge>9 + 2. \<not> is_delim ?t j"
    using indexOf_none[of "9 + 2" ?t] i1 by simp
  have p: "successive_pairs ?t 0 [(0, 3), (6, 9)]" using f e by simp
  have "HighlightHandler_extractDecorations ?t = concat (map pair_ranges [(0, 3), (6, 9)])"
    using highlight_scanner_pairs[of ?t] p by blast
  then have a: "HighlightHandler_extractDecorations ?t
     = [mk Hide 0 2, mk Hide 3 5, mk Highlight 2 3, mk Hide 6 8, mk Hide 9 11, mk Highlight 8 9]"
    by (simp add: pair_ranges_def)
  let ?u = "''==a====x''"
  have j1: "indexOf ?u ''=='' 0 = 0" "indexOf ?u ''=='' (0 + 2) = 3"
    "indexOf ?u ''=='' (3 + 2) = 5" "indexOf ?u ''=='' (5 + 2) = -1"
    by (simp_all add: indexOf_def clamp_def)
  have g: "first_delim ?u 0 0" "first_delim ?u (0 + 2) 3" "first_delim ?u (3 + 2) 5"
    using indexOf_first_delim[of 0 ?u] indexOf_first_delim[of "0 + 2" ?u]
      indexOf_first_delim[of "3 + 2" ?u] j1 by simp_all
  have ge: "\<forall>j\<ge>5 + 2. \<not> is_delim ?u j"
    using indexOf_none[of "5 + 2" ?u] j1 by simp
  have q: "successive_pairs ?u (3 + 2) []" using g(3) ge by auto
  have q': "successive_pairs ?u 0 [(0, 3)]" using g(1,2) q by simp
  have "HighlightHandler_extractDecorations ?u = concat (map pair_ranges [(0, 3)])"
    using highlight_scanner_pairs[of ?u] q' by blast
  then have b: "HighlightHandler_extractDecorations ?u = [mk Hide 0 2, mk Hide 3 5, mk Highlight 2 3]"
    by (simp add: pair_ranges_def)
  let ?v = "''==open''"
  have k1: "indexOf ?v ''=='' 0 = 0" "indexOf ?v ''=='' (0 + 2) = -1"
    by (simp_all add: indexOf_def clamp_def)
  have h1: "first_delim ?v 0 0" using indexOf_first_delim[of 0 ?v] k1 by simp
  have h2: "\<forall>j\<ge>0 + 2. \<not> is_delim ?v j" using indexOf_none[of "0 + 2" ?v] k1 by simp
  have c: "HighlightHandler_extractDecorations ?v = []"
    using highlight_scanner_pairs[of ?v] h1 h2 by blast
  let ?w = "''plain''"
  have l1: "indexOf ?w ''=='' 0 = -1" by (simp add: indexOf_def clamp_def)
  have m: "\<forall>j\<ge>0. \<not> is_delim ?w j" using indexOf_none[of 0 ?w] l1 by simp
  then have "successive_pairs ?w 0 []" by simp
  then have "HighlightHandler_extractDecorations ?w = concat (map pair_ranges [])"
    using highlight_scanner_pairs[of ?w] by blast
  then have d: "HighlightHandler_extractDecorations ?w = []" by simp
  from a b c d show ?thesis by simp
qed

section \<open>Fenced code blocks without a matching fence\<close>

lemma closing_fence_at_replicate:
  "closing_fence_at s k \<longleftrightarrow> (\<exists>c\<ge>3. drop k s = replicate c CHR ''`'')"
proof
  assume "closing_fence_at s k"
  then have "3 \<le> length (drop k s)" "\<forall>x\<in>set (drop k s). x = CHR ''`''"
    by (simp_all add: closing_fence_at_def)
  then have "drop k s = replicate (length (drop k s)) CHR ''`''"
    by (metis replicate_eqI)
  with \<open>3 \<le> length (drop k s)\<close> show "\<exists>c\<ge>3. drop k s = replicate c CHR ''`''" by blast
next
  assume "\<exists>c\<ge>3. drop k s = replicate c CHR ''`''"
  then obtain c where "3 \<le> c" "drop k s = replicate c CHR ''`''" by blast
  then show "closing_fence_at s k" unfolding closing_fence_at_def by simp
qed

lemma takeWhile_eq_replicate:
  "takeWhile (\<lambda>x. x = c) s = replicate (length (takeWhile (\<lambda>x. x = c) s)) c"
  by (induction s) auto

lemma takeWhile_replicate_append:
  "takeWhile (\<lambda>x. x = c) (replicate a c @ ys) = replicate a c @ takeWhile (\<lambda>x. x = c) ys"
  by (induction a) auto

lemma take_run:
  assumes "a \<le> length (takeWhile (\<lambda>x. x = c) s)"
  shows "take a s = replicate a c"
proof -
  have "take a s = take a (takeWhile (\<lambda>x. x = c) s @ dropWhile (\<lambda>x. x = c) s)" by simp
  also have "\<dots> = take a (takeWhile (\<lambda>x. x = c) s)" using assms by (simp del: takeWhile_dropWhile_id)
  also have "\<dots> = take a (replicate (length (takeWhile (\<lambda>x. x = c) s)) c)"
    using takeWhile_eq_replicate[of c s] by simp
  also have "\<dots> = replicate a c" using assms by (simp add: min_def)
  finally show ?thesis .
qed

lemma split_three:
  assumes "a + c \<le> length s"
  shows "s = take a s @ take (length s - c - a) (drop a s) @ drop (length s - c) s"
proof -
  have "drop (length s - c - a) (drop a s) = drop (length s - c) s" using assms by simp
  then have "drop a s = take (length s - c - a) (drop a s) @ drop (length s - c) s"
    by (metis append_take_drop_id)
  then show ?thesis by (metis append_take_drop_id)
qed

lemma fenceMatch_Some_matches:
  assumes "fenceMatch s = Some (a, c)"
  shows "3 \<le> a \<and> 3 \<le> c \<and> a + c \<le> length s
         \<and> take a s = replicate a CHR ''`'' \<and> drop (length s - c) s = replicate c CHR ''`''"
proof -
  let ?run = "length (takeWhile (\<lambda>x. x = CHR ''`'') s)"
  from assms obtain b where
    fa: "List.find (\<lambda>a. \<exists>b \<in> set [0..<Suc (length s - a)]. closing_fence_at s (a + b)) (rev [3..<Suc ?run]) = Some a"
    and fb: "List.find (\<lambda>b. closing_fence_at s (a + b)) [0..<Suc (length s - a)] = Some b"
    and c: "c = length s - (a + b)"
    by (auto simp: fenceMatch_def Let_def split: option.splits)
  from find_SomeD[OF fa] have "a \<in> set (rev [3..<Suc ?run])" by blast
  then have a3: "3 \<le> a" and ar: "a \<le> ?run" by (simp_all del: upt_Suc)
  from find_SomeD[OF fb] have cf: "closing_fence_at s (a + b)" and "b \<in> set [0..<Suc (length s - a)]"
    by blast+
  then have bl: "b \<le> length s - a" by (simp del: upt_Suc)
  from cf have l3: "3 \<le> length (drop (a + b) s)" by (simp add: closing_fence_at_def)
  then have c3: "3 \<le> c" and ab: "a + b \<le> length s" using c by simp_all
  from cf obtain c' where "drop (a + b) s = replicate c' CHR ''`''"
    using closing_fence_at_replicate by blast
  then have dr: "drop (a + b) s = replicate c CHR ''`''" using c
    by (metis length_drop length_replicate)
  have "length s - c = a + b" using c ab by simp
  with dr have d: "drop (length s - c) s = replicate c CHR ''`''" by simp
  have t: "take a s = replicate a CHR ''`''" using ar by (rule take_run)
  from a3 c3 ab c t d show ?thesis by simp
qed

lemma fenceMatch_None_iff: "fenceMatch s = None \<longleftrightarrow> \<not> matches_fence_pattern s"
proof
  assume n: "fenceMatch s = None"
  show "\<not> matches_fence_pattern s"
  proof
    assume "matches_fence_pattern s"
    then obtain a body c where a: "3 \<le> a" and c: "3 \<le> c"
      and s: "s = replicate a CHR ''`'' @ body @ replicate c CHR ''`''"
      by (auto simp: matches_fence_pattern_def)
    let ?run = "length (takeWhile (\<lambda>x. x = CHR ''`'') s)"
    let ?P = "\<lambda>a. \<exists>b \<in> set [0..<Suc (length s - a)]. closing_fence_at s (a + b)"
    have "takeWhile (\<lambda>x. x = CHR ''`'') s = replicate a CHR ''`'' @ takeWhile (\<lambda>x. x = CHR ''`'') (body @ replicate c CHR ''`'')"
      by (subst s) (rule takeWhile_replicate_append)
    then have ar: "a \<le> ?run" by (metis length_append length_replicate le_add1)
    have "drop (a + length body) s = replicate c CHR ''`''" by (subst s) simp
    then have "closing_fence_at s (a + length body)" using c closing_fence_at_replicate by blast
    moreover have "length body \<le> length s - a" by (subst s) simp
    ultimately have P: "?P a" by (intro bexI[of _ "length body"]) (simp_all del: upt_Suc)
    from a ar have "a \<in> set (rev [3..<Suc ?run])" by (simp del: upt_Suc)
    with P have "List.find ?P (rev [3..<Suc ?run]) \<noteq> None"
      unfolding find_None_iff by blast
    then obtain a' where fa: "List.find ?P (rev [3..<Suc ?run]) = Some a'" by blast
    from find_SomeD[OF this] have "?P a'" by blast
    then have "List.find (\<lambda>b. closing_fence_at s (a' + b)) [0..<Suc (length s - a')] \<noteq> None"
      unfolding find_None_iff by blast
    then obtain b' where fb: "List.find (\<lambda>b. closing_fence_at s (a' + b)) [0..<Suc (length s - a')] = Some b'"
      by blast
    from fa fb have "fenceMatch s \<noteq> None" by (simp add: fenceMatch_def Let_def)
    with n show False by simp
  qed
next
  assume m: "\<not> matches_fence_pattern s"
  show "fenceMatch s = None"
  proof (rule ccontr)
    assume "fenceMatch s \<noteq> None"
    then obtain a c where "fenceMatch s = Some (a, c)" by auto
    from fenceMatch_Some_matches[OF this]
    have a: "3 \<le> a" "3 \<le> c" "a + c \<le> length s" "take a s = replicate a CHR ''`''"
      "drop (length s - c) s = replicate c CHR ''`''" by simp_all
    have "s = take a s @ take (length s - c - a) (drop a s) @ drop (length s - c) s"
      using a(3) by (rule split_three)
    with a have "s = replicate a CHR ''`'' @ take (length s - c - a) (drop a s) @ replicate c CHR ''`''"
      by simp
    with a have "matches_fence_pattern s" unfolding matches_fence_pattern_def by blast
    with m show False by simp
  qed
qed

text \<open>
  Claim C9. When the raw span of a code node with a position does not consist of an
  opening fence of three or more backticks, a body and a closing fence of three or more
  backticks at its end, the code-block handler returns exactly one decoration, of type
  code, over the whole node span.
\<close>

theorem code_block_fallback:
  assumes "hasValidPosition n"
    and "\<not> matches_fence_pattern (substring text (start_offset n) (end_offset n))"
  shows "CodeBlockHandler_extractDecorations n text = [mk Code (start_offset n) (end_offset n)]"
  using assms fenceMatch_None_iff[of "substring text (start_offset n) (end_offset n)"]
  by (simp add: CodeBlockHandler_extractDecorations_def Let_def)

theorem code_block_fallback_witness:
  "hasValidPosition (Node ''code'' (Some (Some 0, Some 7)) None 0)
   \<and> \<not> matches_fence_pattern ''```js\<newline>x''
   \<and> CodeBlockHandler_extractDecorations (Node ''code'' (Some (Some 0, Some 7)) None 0) ''```js\<newline>x''
       = [mk Code 0 7]"
proof -
  have v: "hasValidPosition (Node ''code'' (Some (Some 0, Some 7)) None 0)"
    by (simp add: hasValidPosition_def)
  have s: "substring ''```js\<newline>x'' 0 7 = ''```js\<newline>x''"
    by (simp add: substring_def clamp_def)
  have "fenceMatch ''```js\<newline>x'' = None"
    by (simp add: fenceMatch_def closing_fence_at_def)
  then have m: "\<not> matches_fence_pattern ''```js\<newline>x''"
    by (simp add: fenceMatch_None_iff)
  from code_block_fallback[of "Node ''code'' (Some (Some 0, Some 7)) None 0" "''```js\<newline>x''"] v m s
  show ?thesis by (simp add: start_offset_def end_offset_def)
qed

section \<open>Ranges lie inside the text\<close>

lemma valid_mk: "valid_range text (mk t a b) \<longleftrightarrow> 0 \<le> a \<and> a < b \<and> b \<le> int (length text)"
  by (simp add: valid_range_def mk_def)

lemma delimited_match_cases:
  "delimited_match d x = None \<or> delimited_match d x = Some (length d)"
  unfolding delimited_match_def by (rule if_split[THEN iffD2]) blast

lemma delimiter_length_const:
  "delimiter_length (int (length d1)) (delimited_match d1 x) (delimited_match d2 x) = int (length d1)"
  if "length d2 = length d1"
  using that delimited_match_cases[of d1 x] delimited_match_cases[of d2 x]
  unfolding delimiter_length_def truthy_group_def by auto

lemma delimiter_length_1 [simp]:
  "delimiter_length 1 (delimited_match ''*'' x) (delimited_match ''_'' x) = 1"
  using delimiter_length_const[of "''_''" "''*''" x] by simp

lemma delimiter_length_2 [simp]:
  "delimiter_length 2 (delimited_match ''**'' x) (delimited_match ''__'' x) = 2"
  using delimiter_length_const[of "''__''" "''**''" x] by simp

lemma delimiter_length_3 [simp]:
  "delimiter_length 3 (delimited_match ''***'' x) (delimited_match ''___'' x) = 3"
  using delimiter_length_const[of "''___''" "''***''" x] by simp

lemma heading_valid:
  assumes ok: "positioned_ok text n"
  shows "\<forall>d \<in> set (HeadingHandler_extractDecorations n text). valid_range text d"
proof (cases "hasValidPosition n")
  case False
  then show ?thesis by (simp add: HeadingHandler_extractDecorations_def)
next
  case True
  let ?s = "start_offset n" and ?e = "end_offset n"
  let ?h = "substring text ?s ?e"
  from ok True have b: "0 \<le> ?s" "?s < ?e" "?e \<le> int (length text)" by (auto simp: positioned_ok_def)
  show ?thesis
  proof (cases "HEADING_MARKER_PATTERN ?h")
    case None
    with True b show ?thesis
      by (simp add: HeadingHandler_extractDecorations_def Let_def createFallbackDecoration_def valid_mk)
  next
    case (Some m)
    obtain a k c where m: "m = (a, k, c)" by (cases m) auto
    from marker_match_decompose[of ?h a k c] Some m have k1: "1 \<le> k" by auto
    have "valid_range text d"
      if "\<not> (getContentStart m ?s \<ge> ?e)"
        "d \<in> set (createMarkerDecoration m ?s @ [createContentDecoration m ?s ?e (depth n)])" for d
      using that b k1 unfolding m
      by (auto simp: getContentStart_def createMarkerDecoration_def createContentDecoration_def
            Let_def valid_range_def mk_def)
    with True Some show ?thesis
      by (auto simp: HeadingHandler_extractDecorations_def Let_def)
  qed
qed

lemma hr_valid:
  assumes "positioned_ok text n"
  shows "\<forall>d \<in> set (HorizontalRuleHandler_extractDecorations n text). valid_range text d"
  using assms by (auto simp: HorizontalRuleHandler_extractDecorations_def positioned_ok_def Let_def valid_mk)

lemma inline_code_valid:
  assumes "positioned_ok text n" "ntype n = ''inlineCode''"
  shows "\<forall>d \<in> set (InlineCodeHandler_extractDecorations n text). valid_range text d"
  using assms
  by (auto simp: InlineCodeHandler_extractDecorations_def positioned_ok_def Let_def BACKTICK_LENGTH_def
        createOpeningBacktickDecoration_def createClosingBacktickDecoration_def
        createCodeContentDecoration_def valid_mk)

lemma emphasis_cases:
  "EmphasisHandler_extractDecorations n text = []
   \<or> (hasValidPosition n \<and> EmphasisHandler_extractDecorations n text =
        [mk Hide (start_offset n) (start_offset n + 1), mk Hide (end_offset n - 1) (end_offset n),
         mk Italic (start_offset n + 1) (end_offset n - 1)])"
  by (simp add: EmphasisHandler_extractDecorations_def Let_def)

lemma emphasis_valid:
  assumes "positioned_ok text n" "ntype n = ''emphasis''"
  shows "\<forall>d \<in> set (EmphasisHandler_extractDecorations n text). valid_range text d"
  using assms emphasis_cases[of n "text"]
  by (auto simp: positioned_ok_def valid_mk)

lemma delete_valid:
  assumes "positioned_ok text n"
  shows "\<forall>d \<in> set (DeleteHandler_extractDecorations n text). valid_range text d"
  using assms
  by (auto simp: DeleteHandler_extractDecorations_def positioned_ok_def Let_def valid_mk)

lemma boldItalic_child_cases:
  "boldItalic_child c text =
     (if ntype c = ''emphasis'' \<and> hasValidPosition c then
        [mk Hide (start_offset c) (start_offset c + 1), mk Hide (end_offset c - 1) (end_offset c),
         mk BoldItalic (start_offset c + 1) (end_offset c - 1)]
      else if hasValidPosition c then [mk Bold (start_offset c) (end_offset c)] else [])"
  by (simp add: boldItalic_child_def Let_def)

lemma boldItalic_child_valid:
  assumes "positioned_ok text c"
  shows "\<forall>d \<in> set (boldItalic_child c text). valid_range text d"
  using assms unfolding boldItalic_child_cases by (auto simp: positioned_ok_def valid_mk)

lemma processChildren_valid:
  assumes "\<forall>c \<in> set cs. positioned_ok text c" "\<forall>d \<in> set ds. valid_range text d"
  shows "\<forall>d \<in> set (processChildrenForBoldItalic cs text ds). valid_range text d"
  using assms
proof (induction cs arbitrary: ds)
  case Nil
  then show ?case by simp
next
  case (Cons c cs)
  from Cons.prems boldItalic_child_valid[of "text" c]
  have v: "\<forall>d \<in> set (ds @ boldItalic_child c text). valid_range text d" by auto
  from Cons.prems have "\<forall>c \<in> set cs. positioned_ok text c" by simp
  from Cons.IH[OF this v] show ?case by simp
qed

lemma strong_valid:
  assumes "positioned_ok text n" "ntype n = ''strong''"
    and "\<forall>cs. children n = Some cs \<longrightarrow> (\<forall>c \<in> set cs. positioned_ok text c)"
  shows "\<forall>d \<in> set (StrongHandler_extractDecorations n text). valid_range text d"
proof (cases "hasValidPosition n")
  case False
  then show ?thesis by (simp add: StrongHandler_extractDecorations_def)
next
  case True
  let ?s = "start_offset n" and ?e = "end_offset n"
  from assms(1,2) True have b: "0 \<le> ?s" "?s + 5 \<le> ?e" "?e \<le> int (length text)"
    by (auto simp: positioned_ok_def)
  have bold: "\<forall>d \<in> set (extractBoldDecorations text ?s ?e). valid_range text d"
    using b by (simp add: extractBoldDecorations_def Let_def valid_mk)
  have outer: "\<forall>d \<in> set [mk Hide ?s (?s + 3), mk Hide (?e - 3) ?e]. valid_range text d"
    using b by (simp add: valid_mk)
  have "\<forall>d \<in> set (extractBoldItalicDecorations n text ?s ?e). valid_range text d"
  proof (cases "children n")
    case None
    with outer show ?thesis by (simp add: extractBoldItalicDecorations_def Let_def)
  next
    case (Some cs)
    with assms(3) have "\<forall>c \<in> set cs. positioned_ok text c" by simp
    from processChildren_valid[OF this outer] Some show ?thesis
      by (simp add: extractBoldItalicDecorations_def Let_def)
  qed
  with bold True show ?thesis by (simp add: StrongHandler_extractDecorations_def Let_def)
qed

lemma findContentStart_bounds:
  assumes "a \<le> b"
  shows "a \<le> findContentStart text a b \<and> findContentStart text a b \<le> b"
proof -
  let ?p1 = "scan_forward (\<lambda>c. c = Some CHR '' '' \<or> c = Some CHR 0x09) text a b"
  let ?p2 = "scan_forward (\<lambda>c. c \<noteq> Some CHR 0x0A \<and> c \<noteq> Some CHR 0x0D
                                  \<and> c \<noteq> Some CHR '' '' \<and> c \<noteq> Some CHR 0x09) text ?p1 b"
  let ?p3 = "scan_forward (\<lambda>c. c = Some CHR '' '' \<or> c = Some CHR 0x09) text ?p2 b"
  let ?p4 = "scan_forward (\<lambda>c. c = Some CHR 0x0A \<or> c = Some CHR 0x0D) text ?p3 b"
  have 1: "a \<le> ?p1" "?p1 \<le> b" using assms by (simp_all add: scan_forward_ge scan_forward_le)
  have 2: "?p1 \<le> ?p2" "?p2 \<le> b" using 1 by (simp_all add: scan_forward_ge scan_forward_le)
  have 3: "?p2 \<le> ?p3" "?p3 \<le> b" using 2 by (simp_all add: scan_forward_ge scan_forward_le)
  have 4: "?p3 \<le> ?p4" "?p4 \<le> b" using 3 by (simp_all add: scan_forward_ge scan_forward_le)
  have "findContentStart text a b = ?p4" by (simp add: findContentStart_def Let_def)
  with 1 2 3 4 show ?thesis by linarith
qed

lemma code_block_valid:
  assumes ok: "positioned_ok text n"
  shows "\<forall>d \<in> set (CodeBlockHandler_extractDecorations n text). valid_range text d"
proof (cases "hasValidPosition n")
  case False
  then show ?thesis by (simp add: CodeBlockHandler_extractDecorations_def)
next
  case True
  let ?s = "start_offset n" and ?e = "end_offset n"
  let ?h = "substring text ?s ?e"
  from ok True have b: "0 \<le> ?s" "?s < ?e" "?e \<le> int (length text)" by (auto simp: positioned_ok_def)
  have fb: "\<forall>d \<in> set [mk Code ?s ?e]. valid_range text d" using b by (simp add: valid_mk)
  show ?thesis
  proof (cases "fenceMatch ?h")
    case None
    with True fb show ?thesis by (simp add: CodeBlockHandler_extractDecorations_def Let_def)
  next
    case (Some m)
    obtain a c where m: "m = (a, c)" by (cases m) auto
    from fenceMatch_Some_matches[of ?h a c] Some m
    have f: "3 \<le> a" "3 \<le> c" "a + c \<le> length ?h" by simp_all
    have "length ?h = nat (?e - ?s)" using b by (intro substring_length_within) simp_all
    with f b have le: "?s + int a \<le> ?e - int c" by linarith
    from findContentStart_bounds[OF le, of "text"]
    have cs: "?s + int a \<le> findContentStart text (?s + int a) (?e - int c)"
      "findContentStart text (?s + int a) (?e - int c) \<le> ?e - int c" by simp_all
    have "\<forall>d \<in> set [mk Hide ?s (findContentStart text (?s + int a) (?e - int c)),
                     mk Hide (?e - int c) ?e, mk CodeBlock ?s ?e]. valid_range text d"
      using b f cs le by (simp add: valid_mk)
    with True Some m f show ?thesis
      by (simp add: CodeBlockHandler_extractDecorations_def Let_def)
  qed
qed

lemma blockquote_pattern_bounds:
  assumes "BLOCKQUOTE_MARKER_PATTERN s = Some (a, b, c)"
  shows "1 \<le> b \<and> a + b + c \<le> length s"
proof -
  define g1 where "g1 = takeWhile is_space s"
  define r1 where "r1 = dropWhile is_space s"
  define g2 where "g2 = takeWhile (\<lambda>c. c = CHR ''>'') r1"
  define r2 where "r2 = dropWhile (\<lambda>c. c = CHR ''>'') r1"
  define g3 where "g3 = takeWhile is_space r2"
  have eq: "BLOCKQUOTE_MARKER_PATTERN s =
      (if 1 \<le> length g2 then Some (length g1, length g2, length g3) else None)"
    unfolding BLOCKQUOTE_MARKER_PATTERN_def Let_def g1_def r1_def g2_def r2_def g3_def by (rule refl)
  from assms eq have a: "a = length g1" and b: "b = length g2" and c: "c = length g3"
    and b1: "1 \<le> length g2"
    by (simp_all split: if_splits)
  have "length s = length g1 + length r1"
    unfolding g1_def r1_def by (metis length_append takeWhile_dropWhile_id)
  moreover have "length r1 = length g2 + length r2"
    unfolding g2_def r2_def by (metis length_append takeWhile_dropWhile_id)
  moreover have "length g3 \<le> length r2"
    unfolding g3_def by (rule length_takeWhile_le)
  ultimately show ?thesis using a b c b1 by simp
qed

lemma blockquote_line_marker_valid:
  assumes "0 \<le> pos" "pos \<le> lineEnd" "lineEnd \<le> int (length text)"
  shows "\<forall>d \<in> set (blockquote_line_marker text pos lineEnd). valid_range text d"
proof (cases "BLOCKQUOTE_MARKER_PATTERN (substring text pos lineEnd)")
  case None
  then show ?thesis by (simp add: blockquote_line_marker_def)
next
  case (Some m)
  obtain a b c where m: "m = (a, b, c)" by (cases m) auto
  from blockquote_pattern_bounds[of "substring text pos lineEnd" a b c] Some m
  have p: "1 \<le> b" "a + b + c \<le> length (substring text pos lineEnd)" by simp_all
  have "length (substring text pos lineEnd) = nat (lineEnd - pos)"
    using assms by (intro substring_length_within) simp_all
  with p assms have "pos + int a + int b + int c \<le> lineEnd" by linarith
  with assms p(1) Some m show ?thesis
    by (simp add: blockquote_line_marker_def Let_def valid_mk)
qed

lemma blockquote_next_pos_ge: "lineEnd \<le> blockquote_next_pos text lineEnd endOffset"
  by (simp add: blockquote_next_pos_def Let_def)

lemma blockquote_lines_valid:
  assumes "0 \<le> pos" "endOffset \<le> int (length text)" "\<forall>d \<in> set ds. valid_range text d"
  shows "\<forall>d \<in> set (blockquote_lines text pos endOffset ds). valid_range text d"
  using assms
proof (induction "text" pos endOffset ds rule: blockquote_lines.induct)
  case (1 t pos endOffset ds)
  show ?case
  proof (cases "pos < endOffset")
    case False
    with "1.prems" show ?thesis by (subst blockquote_lines.simps) simp
  next
    case True
    let ?le = "scan_forward not_newline t pos endOffset"
    let ?np = "blockquote_next_pos t ?le endOffset"
    have le: "pos \<le> ?le" "?le \<le> endOffset"
      using True by (simp_all add: scan_forward_ge scan_forward_le)
    have np: "0 \<le> ?np" using le "1.prems"(1) blockquote_next_pos_ge[of ?le t endOffset] by linarith
    have "\<forall>d \<in> set (blockquote_line_marker t pos ?le). valid_range t d"
      using "1.prems" le by (intro blockquote_line_marker_valid) simp_all
    with "1.prems" have "\<forall>d \<in> set (ds @ blockquote_line_marker t pos ?le). valid_range t d" by auto
    from "1.IH"[OF True np "1.prems"(2) this]
    show ?thesis using True by (subst blockquote_lines.simps) simp
  qed
qed

lemma blockquote_valid:
  assumes ok: "positioned_ok text n"
  shows "\<forall>d \<in> set (BlockquoteHandler_extractDecorations n text). valid_range text d"
proof (cases "hasValidPosition n")
  case False
  then show ?thesis by (simp add: BlockquoteHandler_extractDecorations_def)
next
  case True
  let ?s = "start_offset n" and ?e = "end_offset n"
  let ?a = "scan_backward not_newline text ?s 0"
  from ok True have b: "0 \<le> ?s" "?s < ?e" "?e \<le> int (length text)" by (auto simp: positioned_ok_def)
  have a: "0 \<le> ?a" "?a \<le> ?s" using b by (simp_all add: scan_backward_ge scan_backward_le)
  have "\<forall>d \<in> set (blockquote_lines text ?a ?e []). valid_range text d"
    using a b by (intro blockquote_lines_valid) simp_all
  moreover have "valid_range text (mk Blockquote ?a ?e)" using a b by (simp add: valid_mk)
  ultimately show ?thesis using True
    by (simp add: BlockquoteHandler_extractDecorations_def Let_def)
qed

lemma find_opening_ge: "find_opening c text pos endOffset = Some p \<Longrightarrow> pos \<le> p"
proof (induction c "text" pos endOffset rule: find_opening.induct)
  case (1 c t pos endOffset)
  show ?case
  proof (cases "pos < endOffset \<and> charAt t pos \<noteq> Some c")
    case False
    with "1.prems" show ?thesis by (subst (asm) find_opening.simps) auto
  next
    case True
    show ?thesis
    proof (cases "charAt t pos \<noteq> Some CHR '' '' \<and> charAt t pos \<noteq> Some CHR 0x0A
                  \<and> charAt t pos \<noteq> Some CHR 0x0D")
      case g: True
      with True "1.prems" show ?thesis by (subst (asm) find_opening.simps) simp
    next
      case g: False
      with True "1.prems" have "find_opening c t (pos + 1) endOffset = Some p"
        by (subst (asm) find_opening.simps) auto
      with "1.IH" True g have "pos + 1 \<le> p" by blast
      then show ?thesis by simp
    qed
  qed
qed

lemma link_valid:
  assumes ok: "positioned_ok text n" and ty: "ntype n = ''link''"
  shows "\<forall>d \<in> set (LinkHandler_extractDecorations n text). valid_range text d"
proof (cases "hasValidPosition n")
  case False
  then show ?thesis by (simp add: LinkHandler_extractDecorations_def)
next
  case True
  let ?s = "start_offset n" and ?e = "end_offset n"
  from ok ty True have b: "0 \<le> ?s" "?s + 3 \<le> ?e" "?e \<le> int (length text)"
    by (auto simp: positioned_ok_def)
  let ?c1 = "(if ?s > 0 then charAt text (?s - 1) else None) = Some CHR ''<''
             \<and> (if ?e < int (length text) then charAt text ?e else None) = Some CHR ''>''"
  let ?c2 = "(if ?s < int (length text) then charAt text ?s else None) = Some CHR ''<''
             \<and> (if ?e > 0 then charAt text (?e - 1) else None) = Some CHR ''>''"
  show ?thesis
  proof (cases ?c1)
    case c1: True
    then have "0 < ?s" "?e < int (length text)" by (auto split: if_splits)
    then have "\<forall>d \<in> set [mk Hide (?s - 1) ?s, mk Hide ?e (?e + 1), mk Link ?s ?e]. valid_range text d"
      using b by (simp add: valid_mk)
    moreover have "?c1 = True" using c1 by simp
    ultimately show ?thesis
      unfolding LinkHandler_extractDecorations_def Let_def using True by simp
  next
    case c1: False
    then have e1: "?c1 = False" by simp
    show ?thesis
    proof (cases ?c2)
      case c2: True
      have "\<forall>d \<in> set [mk Hide ?s (?s + 1), mk Hide (?e - 1) ?e, mk Link (?s + 1) (?e - 1)]. valid_range text d"
        using b by (simp add: valid_mk)
      moreover have "?c2 = True" using c2 by simp
      ultimately show ?thesis
        unfolding LinkHandler_extractDecorations_def Let_def e1 using True by simp
    next
      case c2: False
      then have e2: "?c2 = False" by simp
      let ?be = "scan_forward not_closing_bracket text (?s + 1) ?e"
      have be: "?s + 1 \<le> ?be" by (rule scan_forward_ge)
      show ?thesis
      proof (cases "find_opening CHR ''('' text (?be + 1) ?e")
        case None
        then show ?thesis
          unfolding LinkHandler_extractDecorations_def Let_def e1 e2 using True by simp
      next
        case (Some p)
        from find_opening_ge[OF Some] have p: "?be + 1 \<le> p" .
        let ?q = "find_closing_paren text (p + 1) 1 ?e"
        have q1: "p + 1 \<le> ?q" by (rule find_closing_paren_ge)
        have "valid_range text d"
          if "?be < ?e" "p < ?e"
            "d \<in> set ([mk Hide ?s (?s + 1), mk Hide ?be (?be + 1), mk Hide p ?q]
                        @ (if ?be > ?s + 1 then [mk Link (?s + 1) ?be] else []))" for d
        proof -
          have "?q \<le> ?e" using that(2) by (intro find_closing_paren_le) simp
          with that b be p q1 show ?thesis by (auto simp: valid_mk split: if_splits)
        qed
        then show ?thesis
          unfolding LinkHandler_extractDecorations_def Let_def e1 e2 Some using True by auto
      qed
    qed
  qed
qed

lemma image_valid:
  assumes ok: "positioned_ok text n"
  shows "\<forall>d \<in> set (ImageHandler_extractDecorations n text). valid_range text d"
proof (cases "hasValidPosition n")
  case False
  then show ?thesis by (simp add: ImageHandler_extractDecorations_def)
next
  case True
  let ?s = "start_offset n" and ?e = "end_offset n"
  from ok True have b: "0 \<le> ?s" "?s < ?e" "?e \<le> int (length text)"
    by (auto simp: positioned_ok_def)
  let ?be = "scan_forward not_closing_bracket text (?s + 1 + 1) ?e"
  have be: "?s + 1 + 1 \<le> ?be" by (rule scan_forward_ge)
  show ?thesis
  proof (cases "find_opening CHR ''('' text (?be + 1) ?e")
    case None
    then show ?thesis
      unfolding ImageHandler_extractDecorations_def Let_def using True by simp
  next
    case (Some p)
    from find_opening_ge[OF Some] have p: "?be + 1 \<le> p" .
    let ?q = "find_closing_paren text (p + 1) 1 ?e"
    have q1: "p + 1 \<le> ?q" by (rule find_closing_paren_ge)
    have "valid_range text d"
      if "?be < ?e" "p < ?e"
        "d \<in> set ([mk Hide ?s (?s + 1), mk Hide (?s + 1) (?s + 1 + 1), mk Hide ?be (?be + 1), mk Hide p ?q]
                    @ (if ?be > ?s + 1 + 1 then [mk Image (?s + 1 + 1) ?be] else []))" for d
    proof -
      have "?q \<le> ?e" using that(2) by (intro find_closing_paren_le) simp
      with that b be p q1 show ?thesis by (auto simp: valid_mk split: if_splits)
    qed
    then show ?thesis
      unfolding ImageHandler_extractDecorations_def Let_def Some using True by auto
  qed
qed

lemma link_reference_valid:
  assumes ok: "positioned_ok text n"
  shows "\<forall>d \<in> set (LinkReferenceHandler_extractDecorations n text). valid_range text d"
proof (cases "hasValidPosition n")
  case False
  then show ?thesis by (simp add: LinkReferenceHandler_extractDecorations_def)
next
  case True
  let ?s = "start_offset n" and ?e = "end_offset n"
  from ok True have b: "0 \<le> ?s" "?s < ?e" "?e \<le> int (length text)"
    by (auto simp: positioned_ok_def)
  let ?be = "scan_forward not_closing_bracket text (?s + 1) ?e"
  have be: "?s + 1 \<le> ?be" by (rule scan_forward_ge)
  show ?thesis
  proof (cases "find_opening CHR ''['' text (?be + 1) ?e")
    case None
    then show ?thesis
      unfolding LinkReferenceHandler_extractDecorations_def Let_def using True by simp
  next
    case (Some p)
    from find_opening_ge[OF Some] have p: "?be + 1 \<le> p" .
    let ?q = "scan_forward not_closing_bracket text (p + 1) ?e"
    have q1: "p + 1 \<le> ?q" by (rule scan_forward_ge)
    have "valid_range text d"
      if "?be < ?e" "?q < ?e"
        "d \<in> set ([mk Hide ?s (?s + 1), mk Hide ?be (?be + 1), mk Hide p (?q + 1)]
                    @ (if ?be > ?s + 1 then [mk Link (?s + 1) ?be] else []))" for d
      using that b be p q1 by (auto simp: valid_mk split: if_splits)
    then show ?thesis
      unfolding LinkReferenceHandler_extractDecorations_def Let_def Some using True by auto
  qed
qed

lemma image_reference_valid:
  assumes ok: "positioned_ok text n"
  shows "\<forall>d \<in> set (ImageReferenceHandler_extractDecorations n text). valid_range text d"
proof (cases "hasValidPosition n")
  case False
  then show ?thesis by (simp add: ImageReferenceHandler_extractDecorations_def)
next
  case True
  let ?s = "start_offset n" and ?e = "end_offset n"
  from ok True have b: "0 \<le> ?s" "?s < ?e" "?e \<le> int (length text)"
    by (auto simp: positioned_ok_def)
  let ?be = "scan_forward not_closing_bracket text (?s + 1 + 1) ?e"
  have be: "?s + 1 + 1 \<le> ?be" by (rule scan_forward_ge)
  show ?thesis
  proof (cases "find_opening CHR ''['' text (?be + 1) ?e")
    case None
    then show ?thesis
      unfolding ImageReferenceHandler_extractDecorations_def Let_def using True by simp
  next
    case (Some p)
    from find_opening_ge[OF Some] have p: "?be + 1 \<le> p" .
    let ?q = "scan_forward not_closing_bracket text (p + 1) ?e"
    have q1: "p + 1 \<le> ?q" by (rule scan_forward_ge)
    have "valid_range text d"
      if "?be < ?e" "?q < ?e"
        "d \<in> set ([mk Hide ?s (?s + 1), mk Hide (?s + 1) (?s + 1 + 1), mk Hide ?be (?be + 1), mk Hide p (?q + 1)]
                    @ (if ?be > ?s + 1 + 1 then [mk Image (?s + 1 + 1) ?be] else []))" for d
      using that b be p q1 by (auto simp: valid_mk split: if_splits)
    then show ?thesis
      unfolding ImageReferenceHandler_extractDecorations_def Let_def Some using True by auto
  qed
qed

lemma highlight_loop_valid:
  assumes "\<forall>d \<in> set ds. valid_range text d"
  shows "\<forall>d \<in> set (HighlightHandler_loop text pos ds). valid_range text d"
  using assms
proof (induction "text" pos ds rule: HighlightHandler_loop.induct)
  case (1 t pos ds)
  show ?case
  proof (cases "pos < int (length t) \<and> indexOf t ''=='' pos \<noteq> -1
                \<and> indexOf t ''=='' (indexOf t ''=='' pos + 2) \<noteq> -1")
    case False
    then show ?thesis using "1.prems" by (subst HighlightHandler_loop.simps) auto
  next
    case True
    let ?o = "indexOf t ''=='' pos"
    let ?c = "indexOf t ''=='' (?o + 2)"
    let ?ds = "if ?c > ?o + 2 then ds @ [mk Hide ?o (?o + 2), mk Hide ?c (?c + 2), mk Highlight (?o + 2) ?c] else ds"
    have o0: "0 \<le> ?o" using True by (intro indexOf_nonneg) simp
    have cu: "?c + 2 \<le> int (length t)" using True indexOf_upper[of t "''==''" "?o + 2"] by simp
    have "\<forall>d \<in> set ?ds. valid_range t d" using "1.prems" o0 cu by (auto simp: valid_mk)
    with "1.IH"[of ?o ?c "?o + 2" ?c] True
    have "\<forall>d \<in> set (HighlightHandler_loop t (?c + 2) ?ds). valid_range t d" by simp
    moreover have "HighlightHandler_loop t pos ds = HighlightHandler_loop t (?c + 2) ?ds"
      using True by (subst HighlightHandler_loop.simps) (simp add: Let_def del: HighlightHandler_loop.simps)
    ultimately show ?thesis by simp
  qed
qed

lemma canHandle_findHandler: "canHandle h n \<Longrightarrow> findHandler n \<noteq> None"
proof -
  assume c: "canHandle h n"
  have "h \<in> set handlers" by (cases h) (simp_all add: handlers_def)
  with c show ?thesis unfolding findHandler_def find_None_iff by blast
qed

lemma node_ok_positioned: "node_ok text n \<Longrightarrow> canHandle h n \<Longrightarrow> positioned_ok text n"
  using canHandle_findHandler[of h n] by (auto simp: node_ok_def)

lemma node_ok_children:
  assumes "node_ok text n" "canHandle h n" "ntype n = ''strong''"
  shows "\<forall>cs. children n = Some cs \<longrightarrow> (\<forall>c \<in> set cs. positioned_ok text c)"
  using assms canHandle_findHandler[of h n] by (auto simp: node_ok_def)

text \<open>
  Claim C1. When the syntax tree of the text satisfies the parser's contract
  \<open>node_ok\<close>, every decoration range of the output satisfies
  \<open>0 \<le> startPos < endPos \<le> length text\<close>.
\<close>

theorem output_ranges_valid:
  assumes "\<forall>n \<in> set (visit (parseAST text)). node_ok text n"
  shows "\<forall>d \<in> set (MarkdownParser_extractDecorations parseAST text).
           0 \<le> startPos d \<and> startPos d < endPos d \<and> endPos d \<le> int (length text)"
proof
  fix d assume "d \<in> set (MarkdownParser_extractDecorations parseAST text)"
  from output_origin[OF this] have "valid_range text d"
  proof
    assume "\<exists>n \<in> set (visit (parseAST text)). \<exists>h. canHandle h n \<and> d \<in> set (extractDecorations h n text)"
    then obtain n h where n: "n \<in> set (visit (parseAST text))" and h: "canHandle h n"
      and d: "d \<in> set (extractDecorations h n text)" by blast
    from assms n have nok: "node_ok text n" by blast
    from node_ok_positioned[OF nok h] have ok: "positioned_ok text n" .
    show ?thesis
    proof (cases h)
      case HeadingHandler
      with d heading_valid[OF ok] show ?thesis by simp
    next
      case StrongHandler
      with h have ty: "ntype n = ''strong''" by simp
      from node_ok_children[OF nok h ty] d StrongHandler strong_valid[OF ok ty] show ?thesis by simp
    next
      case EmphasisHandler
      with d h emphasis_valid[OF ok] show ?thesis by simp
    next
      case InlineCodeHandler
      with d h inline_code_valid[OF ok] show ?thesis by simp
    next
      case CodeBlockHandler
      with d code_block_valid[OF ok] show ?thesis by simp
    next
      case BlockquoteHandler
      with d blockquote_valid[OF ok] show ?thesis by simp
    next
      case HorizontalRuleHandler
      with d hr_valid[OF ok] show ?thesis by simp
    next
      case DeleteHandler
      with d delete_valid[OF ok] show ?thesis by simp
    next
      case LinkHandler
      with d h link_valid[OF ok] show ?thesis by simp
    next
      case ImageHandler
      with d image_valid[OF ok] show ?thesis by simp
    next
      case LinkReferenceHandler
      with d link_reference_valid[OF ok] show ?thesis by simp
    next
      case ImageReferenceHandler
      with d image_reference_valid[OF ok] show ?thesis by simp
    qed
  next
    assume "d \<in> set (HighlightHandler_extractDecorations text)"
    with highlight_loop_valid[of "[]" "text" 0] show ?thesis
      by (simp add: HighlightHandler_extractDecorations_def)
  qed
  then show "0 \<le> startPos d \<and> startPos d < endPos d \<and> endPos d \<le> int (length text)"
    by (simp add: valid_range_def)
qed

theorem output_ranges_valid_witness:
  "list_all (node_ok ''**b** `c` ==h=='')
      (visit (Node ''root'' (Some (Some 0, Some 15)) (Some [
         Node ''paragraph'' (Some (Some 0, Some 15)) (Some [
           Node ''strong'' (Some (Some 0, Some 5)) (Some [Node ''text'' (Some (Some 2, Some 3)) None 0]) 0,
           Node ''text'' (Some (Some 5, Some 6)) None 0,
           Node ''inlineCode'' (Some (Some 6, Some 9)) None 0,
           Node ''text'' (Some (Some 9, Some 15)) None 0]) 0]) 0))
   \<and> list_all (\<lambda>d. 0 \<le> startPos d \<and> startPos d < endPos d \<and> endPos d \<le> 15)
      (MarkdownParser_extractDecorations
         (\<lambda>t. Node ''root'' (Some (Some 0, Some 15)) (Some [
            Node ''paragraph'' (Some (Some 0, Some 15)) (Some [
              Node ''strong'' (Some (Some 0, Some 5)) (Some [Node ''text'' (Some (Some 2, Some 3)) None 0]) 0,
              Node ''text'' (Some (Some 5, Some 6)) None 0,
              Node ''inlineCode'' (Some (Some 6, Some 9)) None 0,
              Node ''text'' (Some (Some 9, Some 15)) None 0]) 0]) 0)
         ''**b** `c` ==h=='')
   \<and> length (MarkdownParser_extractDecorations
         (\<lambda>t. Node ''root'' (Some (Some 0, Some 15)) (Some [
            Node ''paragraph'' (Some (Some 0, Some 15)) (Some [
              Node ''strong'' (Some (Some 0, Some 5)) (Some [Node ''text'' (Some (Some 2, Some 3)) None 0]) 0,
              Node ''text'' (Some (Some 5, Some 6)) None 0,
              Node ''inlineCode'' (Some (Some 6, Some 9)) None 0,
              Node ''text'' (Some (Some 9, Some 15)) None 0]) 0]) 0)
         ''**b** `c` ==h=='') = 9"
proof -
  let ?t = "''**b** `c` ==h==''"
  let ?root = "Node ''root'' (Some (Some 0, Some 15)) (Some [
         Node ''paragraph'' (Some (Some 0, Some 15)) (Some [
           Node ''strong'' (Some (Some 0, Some 5)) (Some [Node ''text'' (Some (Some 2, Some 3)) None 0]) 0,
           Node ''text'' (Some (Some 5, Some 6)) None 0,
           Node ''inlineCode'' (Some (Some 6, Some 9)) None 0,
           Node ''text'' (Some (Some 9, Some 15)) None 0]) 0]) 0"
  have ok: "list_all (node_ok ?t) (visit ?root)"
    by (simp add: node_ok_def positioned_ok_def findHandler_def handlers_def
          hasValidPosition_def start_offset_def end_offset_def)
  then have "\<forall>n \<in> set (visit ((\<lambda>t. ?root) ?t)). node_ok ?t n"
    by (simp only: list_all_iff)
  from output_ranges_valid[of "\<lambda>t. ?root" ?t, OF this]
  have v: "list_all (\<lambda>d. 0 \<le> startPos d \<and> startPos d < endPos d \<and> endPos d \<le> 15)
      (MarkdownParser_extractDecorations (\<lambda>t. ?root) ?t)"
    by (simp add: list_all_iff)
  have l: "length (MarkdownParser_extractDecorations (\<lambda>t. ?root) ?t) = 9"
    by code_simp
  from ok v l show ?thesis by simp
qed

section \<open>No duplicate decorations\<close>

lemma scanner_like_mk:
  "scanner_like text (mk t a b) \<longleftrightarrow> t = Highlight \<or> (t = Hide \<and> b = a + 2 \<and> is_delim text a)"
  by (simp add: scanner_like_def mk_def)

lemma scanner_like_key:
  "createKey d = createKey d' \<Longrightarrow> scanner_like text d = scanner_like text d'"
  by (simp add: createKey_def scanner_like_def)

lemma add_inv: "collector_inv c \<Longrightarrow> collector_inv (add c d)"
  by (auto simp: collector_inv_def add_def Let_def)

lemma addAll_inv: "collector_inv c \<Longrightarrow> collector_inv (addAll c ds)"
  unfolding addAll_def by (induction ds arbitrary: c) (simp_all add: add_inv)

lemma visitor_inv: "collector_inv (fst st) \<Longrightarrow> collector_inv (fst (visitor text st n))"
  by (simp add: visitor_def Let_def addAll_inv split: option.splits)

lemma foldl_visitor_inv:
  "collector_inv (fst st) \<Longrightarrow> collector_inv (fst (foldl (visitor text) st ns))"
  by (induction ns arbitrary: st) (simp_all add: visitor_inv)

lemma tree_part_distinct:
  "distinct (map createKey (filter P (getAll (fst (foldl (visitor text) (new_DecorationCollector, {}) ns)))))"
proof -
  have "collector_inv (fst (new_DecorationCollector, {}))"
    by (simp add: collector_inv_def new_DecorationCollector_def)
  from foldl_visitor_inv[OF this, of "text" ns] show ?thesis
    by (simp add: collector_inv_def getAll_def distinct_map_filter)
qed

lemma highlight_loop_scanner_like:
  assumes "\<forall>d \<in> set ds. scanner_like text d" "0 \<le> pos"
  shows "\<forall>d \<in> set (HighlightHandler_loop text pos ds). scanner_like text d"
  using assms
proof (induction "text" pos ds rule: HighlightHandler_loop.induct)
  case (1 t pos ds)
  show ?case
  proof (cases "pos < int (length t) \<and> indexOf t ''=='' pos \<noteq> -1
                \<and> indexOf t ''=='' (indexOf t ''=='' pos + 2) \<noteq> -1")
    case False
    then show ?thesis using "1.prems" by (subst HighlightHandler_loop.simps) auto
  next
    case True
    let ?o = "indexOf t ''=='' pos"
    let ?c = "indexOf t ''=='' (?o + 2)"
    let ?ds = "if ?c > ?o + 2 then ds @ [mk Hide ?o (?o + 2), mk Hide ?c (?c + 2), mk Highlight (?o + 2) ?c] else ds"
    have fo: "first_delim t pos ?o" using "1.prems"(2) True by (intro indexOf_first_delim) simp_all
    then have o0: "0 \<le> ?o + 2" using "1.prems"(2) by (simp add: first_delim_def)
    have fc: "first_delim t (?o + 2) ?c" using o0 True by (intro indexOf_first_delim) simp_all
    then have c0: "0 \<le> ?c + 2" using o0 by (simp add: first_delim_def)
    have "\<forall>d \<in> set ?ds. scanner_like t d"
      using "1.prems"(1) fo fc by (auto simp: scanner_like_mk first_delim_def)
    with "1.IH"[of ?o ?c "?o + 2" ?c] True c0
    have "\<forall>d \<in> set (HighlightHandler_loop t (?c + 2) ?ds). scanner_like t d" by simp
    moreover have "HighlightHandler_loop t pos ds = HighlightHandler_loop t (?c + 2) ?ds"
      using True by (subst HighlightHandler_loop.simps) (simp add: Let_def del: HighlightHandler_loop.simps)
    ultimately show ?thesis by simp
  qed
qed

lemma highlight_loop_distinct:
  assumes "distinct (map createKey ds)" "\<forall>d \<in> set ds. endPos d \<le> pos"
  shows "distinct (map createKey (HighlightHandler_loop text pos ds))"
  using assms
proof (induction "text" pos ds rule: HighlightHandler_loop.induct)
  case (1 t pos ds)
  show ?case
  proof (cases "pos < int (length t) \<and> indexOf t ''=='' pos \<noteq> -1
                \<and> indexOf t ''=='' (indexOf t ''=='' pos + 2) \<noteq> -1")
    case False
    then show ?thesis using "1.prems" by (subst HighlightHandler_loop.simps) auto
  next
    case True
    let ?o = "indexOf t ''=='' pos"
    let ?c = "indexOf t ''=='' (?o + 2)"
    let ?new = "[mk Hide ?o (?o + 2), mk Hide ?c (?c + 2), mk Highlight (?o + 2) ?c]"
    let ?ds = "if ?c > ?o + 2 then ds @ ?new else ds"
    have o: "pos \<le> ?o" using True indexOf_lower[of t "''==''" pos] by simp
    have ou: "?o + 2 \<le> int (length t)" using True indexOf_upper[of t "''==''" pos] by simp
    have c: "?o + 2 \<le> ?c" using True ou indexOf_lower[of t "''==''" "?o + 2"] by simp
    have k: "createKey (mk ty a b) = (a, b, ty)" for ty a b by (simp add: createKey_def mk_def)
    have old: "\<forall>d \<in> set ds. snd (snd (createKey d)) = dtype d \<and> fst (snd (createKey d)) \<le> pos"
      using "1.prems"(2) by (simp add: createKey_def)
    have dn: "distinct (map createKey ?new)" using o c by (simp add: k)
    have "set (map createKey ds) \<inter> set (map createKey ?new) = {}"
    proof (rule ccontr)
      assume "set (map createKey ds) \<inter> set (map createKey ?new) \<noteq> {}"
      then obtain d where d: "d \<in> set ds" "createKey d \<in> set (map createKey ?new)" by auto
      from d(1) "1.prems"(2) have "endPos d \<le> pos" by blast
      moreover from d(2) have "endPos d = ?o + 2 \<or> endPos d = ?c + 2 \<or> endPos d = ?c"
        by (auto simp: createKey_def mk_def)
      ultimately show False using o c by linarith
    qed
    with "1.prems"(1) dn have d1: "distinct (map createKey ?ds)" by auto
    have d2: "\<forall>d \<in> set ?ds. endPos d \<le> ?c + 2"
      using "1.prems"(2) o c by (auto simp: mk_def)
    from "1.IH"[of ?o ?c "?o + 2" ?c] True d1 d2
    have "distinct (map createKey (HighlightHandler_loop t (?c + 2) ?ds))" by simp
    moreover have "HighlightHandler_loop t pos ds = HighlightHandler_loop t (?c + 2) ?ds"
      using True by (subst HighlightHandler_loop.simps) (simp add: Let_def del: HighlightHandler_loop.simps)
    ultimately show ?thesis by simp
  qed
qed

lemma substring_nth:
  assumes "0 \<le> s" "s \<le> e" "e \<le> int (length text)" "i < length (substring text s e)"
  shows "charAt text (s + int i) = Some (substring text s e ! i)"
proof -
  have c: "clamp text s = nat s" "clamp text e = nat e" using assms by (simp_all add: clamp_def)
  have m: "min (nat s) (nat e) = nat s" "max (nat s) (nat e) = nat e" using assms by simp_all
  have sub: "substring text s e = take (nat e - nat s) (drop (nat s) text)"
    unfolding substring_def Let_def c m ..
  have len: "length (substring text s e) = nat (e - s)"
    using assms by (intro substring_length_within) simp_all
  with assms have i: "int i < e - s" by simp
  have "substring text s e ! i = text ! (nat s + i)"
    unfolding sub using i assms by simp
  moreover have "nat (s + int i) = nat s + i" using assms(1) by (simp add: nat_add_distrib)
  ultimately show ?thesis using i assms by (simp add: charAt_def)
qed

lemma is_delim_char: "is_delim text i \<Longrightarrow> charAt text i = Some CHR ''=''"
  by (simp add: is_delim_def)

lemma heading_pattern_char:
  assumes "HEADING_MARKER_PATTERN h = Some (a, b, c)"
  shows "a < length h \<and> h ! a = CHR ''#''"
proof -
  from marker_match_decompose[OF assms] obtain w1 w3 where
    w: "1 \<le> b" "length w1 = a" "h = w1 @ replicate b CHR ''#'' @ w3 @ drop (a + b + c) h" by blast
  obtain b' where b': "b = Suc b'" using w(1) by (cases b) auto
  define rest where "rest = replicate b' CHR ''#'' @ w3 @ drop (a + b + c) h"
  have h: "h = w1 @ CHR ''#'' # rest" using w(3) b' unfolding rest_def by simp
  have "length h = length w1 + Suc (length rest)" by (subst h) simp
  moreover have "h ! a = CHR ''#''" by (subst h) (simp add: w(2)[symmetric])
  ultimately show ?thesis using w(2) by simp
qed

lemma blockquote_pattern_char:
  assumes "BLOCKQUOTE_MARKER_PATTERN s = Some (a, b, c)"
  shows "a < length s \<and> s ! a = CHR ''>''"
proof -
  define g1 where "g1 = takeWhile is_space s"
  define r1 where "r1 = dropWhile is_space s"
  define g2 where "g2 = takeWhile (\<lambda>c. c = CHR ''>'') r1"
  define r2 where "r2 = dropWhile (\<lambda>c. c = CHR ''>'') r1"
  define g3 where "g3 = takeWhile is_space r2"
  have eq: "BLOCKQUOTE_MARKER_PATTERN s =
      (if 1 \<le> length g2 then Some (length g1, length g2, length g3) else None)"
    unfolding BLOCKQUOTE_MARKER_PATTERN_def Let_def g1_def r1_def g2_def r2_def g3_def by (rule refl)
  from assms eq have a: "a = length g1" and b1: "1 \<le> length g2"
    by (simp_all split: if_splits)
  from b1 obtain x xs where g2: "g2 = x # xs" by (cases g2) auto
  then have "x \<in> set (takeWhile (\<lambda>c. c = CHR ''>'') r1)" unfolding g2_def by simp
  then have x: "x = CHR ''>''" by (auto dest: set_takeWhileD)
  have "r1 = g2 @ r2" unfolding g2_def r2_def by simp
  then have r1: "r1 = CHR ''>'' # (xs @ r2)" using g2 x by simp
  have "s = g1 @ r1" unfolding g1_def r1_def by simp
  then have s: "s = g1 @ CHR ''>'' # (xs @ r2)" using r1 by simp
  have "length s = length g1 + Suc (length (xs @ r2))" by (subst s) simp
  moreover have "s ! a = CHR ''>''" by (subst s) (simp add: a)
  ultimately show ?thesis using a by simp
qed

lemma find_opening_char:
  "find_opening c text pos endOffset = Some p \<Longrightarrow> p < endOffset \<Longrightarrow> charAt text p = Some c"
proof (induction c "text" pos endOffset rule: find_opening.induct)
  case (1 c t pos endOffset)
  show ?case
  proof (cases "pos < endOffset \<and> charAt t pos \<noteq> Some c")
    case False
    with "1.prems" show ?thesis by (subst (asm) find_opening.simps) auto
  next
    case True
    show ?thesis
    proof (cases "charAt t pos \<noteq> Some CHR '' '' \<and> charAt t pos \<noteq> Some CHR 0x0A
                  \<and> charAt t pos \<noteq> Some CHR 0x0D")
      case g: True
      with True "1.prems" show ?thesis by (subst (asm) find_opening.simps) simp
    next
      case g: False
      with True "1.prems" have "find_opening c t (pos + 1) endOffset = Some p"
        by (subst (asm) find_opening.simps) auto
      with "1.IH" True g "1.prems"(2) show ?thesis by blast
    qed
  qed
qed

lemma not_delim_char: "charAt text i = Some c \<Longrightarrow> c \<noteq> CHR ''='' \<Longrightarrow> \<not> is_delim text i"
  by (auto simp: is_delim_def)

lemma heading_not_scanner:
  assumes ok: "positioned_ok text n" and dl: "delimiters_ok text n" and ty: "ntype n = ''heading''"
  shows "\<forall>d \<in> set (HeadingHandler_extractDecorations n text). \<not> scanner_like text d"
proof (cases "hasValidPosition n")
  case False
  then show ?thesis by (simp add: HeadingHandler_extractDecorations_def)
next
  case True
  let ?s = "start_offset n" and ?e = "end_offset n"
  let ?h = "substring text ?s ?e"
  from ok True have b: "0 \<le> ?s" "?s < ?e" "?e \<le> int (length text)" by (auto simp: positioned_ok_def)
  from dl True ty have fb: "\<not> scanner_like text (mk Hide ?s ?e)"
    by (auto simp: delimiters_ok_def scanner_like_mk)
  show ?thesis
  proof (cases "HEADING_MARKER_PATTERN ?h")
    case None
    with True fb show ?thesis
      by (simp add: HeadingHandler_extractDecorations_def Let_def createFallbackDecoration_def)
  next
    case (Some m)
    obtain a k c where m: "m = (a, k, c)" by (cases m) auto
    from heading_pattern_char[of ?h a k c] Some m have ch: "a < length ?h" "?h ! a = CHR ''#''" by auto
    from substring_nth[of ?s ?e "text" a] b ch have "charAt text (?s + int a) = Some CHR ''#''" by simp
    then have nd: "\<not> is_delim text (?s + int a)" by (rule not_delim_char) simp
    have ht: "getHeadingType x \<noteq> Highlight \<and> getHeadingType x \<noteq> Hide" for x
      by (simp add: getHeadingType_def)
    have "\<not> scanner_like text d"
      if "d \<in> set (createMarkerDecoration m ?s @ [createContentDecoration m ?s ?e (depth n)])" for d
      using that nd ht unfolding m
      by (auto simp: createMarkerDecoration_def createContentDecoration_def Let_def
            scanner_like_def mk_def)
    with True Some show ?thesis
      by (auto simp: HeadingHandler_extractDecorations_def Let_def)
  qed
qed

lemma hr_not_scanner:
  assumes "delimiters_ok text n" "ntype n = ''thematicBreak''"
  shows "\<forall>d \<in> set (HorizontalRuleHandler_extractDecorations n text). \<not> scanner_like text d"
  using assms
  by (auto simp: HorizontalRuleHandler_extractDecorations_def delimiters_ok_def Let_def scanner_like_mk)

lemma inline_code_not_scanner:
  "\<forall>d \<in> set (InlineCodeHandler_extractDecorations n text). \<not> scanner_like text d"
  by (auto simp: InlineCodeHandler_extractDecorations_def Let_def BACKTICK_LENGTH_def
        createOpeningBacktickDecoration_def createClosingBacktickDecoration_def
        createCodeContentDecoration_def scanner_like_mk)

lemma emphasis_not_scanner:
  "\<forall>d \<in> set (EmphasisHandler_extractDecorations n text). \<not> scanner_like text d"
  using emphasis_cases[of n "text"] by (auto simp: scanner_like_mk)

lemma delete_not_scanner:
  assumes "delimiters_ok text n" "ntype n = ''delete''"
  shows "\<forall>d \<in> set (DeleteHandler_extractDecorations n text). \<not> scanner_like text d"
  using assms
  by (auto simp: DeleteHandler_extractDecorations_def delimiters_ok_def Let_def scanner_like_mk)

lemma boldItalic_child_not_scanner:
  "\<forall>d \<in> set (boldItalic_child c text). \<not> scanner_like text d"
  unfolding boldItalic_child_cases by (auto simp: scanner_like_mk)

lemma processChildren_not_scanner:
  assumes "\<forall>d \<in> set ds. \<not> scanner_like text d"
  shows "\<forall>d \<in> set (processChildrenForBoldItalic cs text ds). \<not> scanner_like text d"
  using assms
proof (induction cs arbitrary: ds)
  case Nil
  then show ?case by simp
next
  case (Cons c cs)
  from Cons.prems boldItalic_child_not_scanner[of c "text"]
  have v: "\<forall>d \<in> set (ds @ boldItalic_child c text). \<not> scanner_like text d" by auto
  from Cons.IH[OF v] show ?case by simp
qed

lemma strong_not_scanner:
  assumes dl: "delimiters_ok text n" and ty: "ntype n = ''strong''"
  shows "\<forall>d \<in> set (StrongHandler_extractDecorations n text). \<not> scanner_like text d"
proof (cases "hasValidPosition n")
  case False
  then show ?thesis by (simp add: StrongHandler_extractDecorations_def)
next
  case True
  let ?s = "start_offset n" and ?e = "end_offset n"
  from dl ty True have nd: "\<not> is_delim text ?s" "\<not> is_delim text (?e - 2)"
    by (auto simp: delimiters_ok_def)
  have bold: "\<forall>d \<in> set (extractBoldDecorations text ?s ?e). \<not> scanner_like text d"
    using nd by (simp add: extractBoldDecorations_def Let_def scanner_like_mk)
  have outer: "\<forall>d \<in> set [mk Hide ?s (?s + 3), mk Hide (?e - 3) ?e]. \<not> scanner_like text d"
    by (simp add: scanner_like_mk)
  have "\<forall>d \<in> set (extractBoldItalicDecorations n text ?s ?e). \<not> scanner_like text d"
  proof (cases "children n")
    case None
    with outer show ?thesis by (simp add: extractBoldItalicDecorations_def Let_def)
  next
    case (Some cs)
    from processChildren_not_scanner[OF outer, of cs] Some show ?thesis
      by (simp add: extractBoldItalicDecorations_def Let_def)
  qed
  with bold True show ?thesis by (simp add: StrongHandler_extractDecorations_def Let_def)
qed

lemma code_block_not_scanner:
  assumes ok: "positioned_ok text n"
  shows "\<forall>d \<in> set (CodeBlockHandler_extractDecorations n text). \<not> scanner_like text d"
proof (cases "hasValidPosition n")
  case False
  then show ?thesis by (simp add: CodeBlockHandler_extractDecorations_def)
next
  case True
  let ?s = "start_offset n" and ?e = "end_offset n"
  let ?h = "substring text ?s ?e"
  from ok True have b: "0 \<le> ?s" "?s < ?e" "?e \<le> int (length text)" by (auto simp: positioned_ok_def)
  show ?thesis
  proof (cases "fenceMatch ?h")
    case None
    with True show ?thesis
      by (simp add: CodeBlockHandler_extractDecorations_def Let_def scanner_like_mk)
  next
    case (Some m)
    obtain a c where m: "m = (a, c)" by (cases m) auto
    from fenceMatch_Some_matches[of ?h a c] Some m
    have f: "3 \<le> a" "3 \<le> c" "a + c \<le> length ?h" by simp_all
    have "length ?h = nat (?e - ?s)" using b by (intro substring_length_within) simp_all
    with f b have le: "?s + int a \<le> ?e - int c" by linarith
    from findContentStart_bounds[OF le, of "text"]
    have cs: "?s + int a \<le> findContentStart text (?s + int a) (?e - int c)" by simp
    have "\<forall>d \<in> set [mk Hide ?s (findContentStart text (?s + int a) (?e - int c)),
                     mk Hide (?e - int c) ?e, mk CodeBlock ?s ?e]. \<not> scanner_like text d"
      using f cs by (simp add: scanner_like_mk)
    with True Some m f show ?thesis
      by (simp add: CodeBlockHandler_extractDecorations_def Let_def scanner_like_mk)
  qed
qed

lemma blockquote_line_marker_not_scanner:
  assumes "0 \<le> pos" "pos \<le> lineEnd" "lineEnd \<le> int (length text)"
  shows "\<forall>d \<in> set (blockquote_line_marker text pos lineEnd). \<not> scanner_like text d"
proof (cases "BLOCKQUOTE_MARKER_PATTERN (substring text pos lineEnd)")
  case None
  then show ?thesis by (simp add: blockquote_line_marker_def)
next
  case (Some m)
  obtain a b c where m: "m = (a, b, c)" by (cases m) auto
  from blockquote_pattern_char[of "substring text pos lineEnd" a b c] Some m
  have ch: "a < length (substring text pos lineEnd)" "substring text pos lineEnd ! a = CHR ''>''"
    by auto
  from substring_nth[of pos lineEnd "text" a] assms ch
  have "charAt text (pos + int a) = Some CHR ''>''" by simp
  then have "\<not> is_delim text (pos + int a)" by (rule not_delim_char) simp
  with Some m show ?thesis
    by (simp add: blockquote_line_marker_def Let_def scanner_like_mk)
qed

lemma blockquote_lines_not_scanner:
  assumes "0 \<le> pos" "endOffset \<le> int (length text)" "\<forall>d \<in> set ds. \<not> scanner_like text d"
  shows "\<forall>d \<in> set (blockquote_lines text pos endOffset ds). \<not> scanner_like text d"
  using assms
proof (induction "text" pos endOffset ds rule: blockquote_lines.induct)
  case (1 t pos endOffset ds)
  show ?case
  proof (cases "pos < endOffset")
    case False
    with "1.prems" show ?thesis by (subst blockquote_lines.simps) simp
  next
    case True
    let ?le = "scan_forward not_newline t pos endOffset"
    let ?np = "blockquote_next_pos t ?le endOffset"
    have le: "pos \<le> ?le" "?le \<le> endOffset"
      using True by (simp_all add: scan_forward_ge scan_forward_le)
    have np: "0 \<le> ?np" using le "1.prems"(1) blockquote_next_pos_ge[of ?le t endOffset] by linarith
    have "\<forall>d \<in> set (blockquote_line_marker t pos ?le). \<not> scanner_like t d"
      using "1.prems" le by (intro blockquote_line_marker_not_scanner) simp_all
    with "1.prems" have "\<forall>d \<in> set (ds @ blockquote_line_marker t pos ?le). \<not> scanner_like t d" by auto
    from "1.IH"[OF True np "1.prems"(2) this]
    show ?thesis using True by (subst blockquote_lines.simps) simp
  qed
qed

lemma blockquote_not_scanner:
  assumes ok: "positioned_ok text n"
  shows "\<forall>d \<in> set (BlockquoteHandler_extractDecorations n text). \<not> scanner_like text d"
proof (cases "hasValidPosition n")
  case False
  then show ?thesis by (simp add: BlockquoteHandler_extractDecorations_def)
next
  case True
  let ?s = "start_offset n" and ?e = "end_offset n"
  let ?a = "scan_backward not_newline text ?s 0"
  from ok True have b: "0 \<le> ?s" "?s < ?e" "?e \<le> int (length text)" by (auto simp: positioned_ok_def)
  have a: "0 \<le> ?a" using b by (simp add: scan_backward_ge)
  have "\<forall>d \<in> set (blockquote_lines text ?a ?e []). \<not> scanner_like text d"
    using a b by (intro blockquote_lines_not_scanner) simp_all
  then show ?thesis using True
    by (simp add: BlockquoteHandler_extractDecorations_def Let_def scanner_like_mk)
qed

lemma link_not_scanner:
  "\<forall>d \<in> set (LinkHandler_extractDecorations n text). \<not> scanner_like text d"
proof (cases "hasValidPosition n")
  case False
  then show ?thesis by (simp add: LinkHandler_extractDecorations_def)
next
  case True
  let ?s = "start_offset n" and ?e = "end_offset n"
  let ?c1 = "(if ?s > 0 then charAt text (?s - 1) else None) = Some CHR ''<''
             \<and> (if ?e < int (length text) then charAt text ?e else None) = Some CHR ''>''"
  let ?c2 = "(if ?s < int (length text) then charAt text ?s else None) = Some CHR ''<''
             \<and> (if ?e > 0 then charAt text (?e - 1) else None) = Some CHR ''>''"
  show ?thesis
  proof (cases ?c1)
    case c1: True
    then have "?c1 = True" by simp
    then show ?thesis
      unfolding LinkHandler_extractDecorations_def Let_def using True by (simp add: scanner_like_mk)
  next
    case c1: False
    then have e1: "?c1 = False" by simp
    show ?thesis
    proof (cases ?c2)
      case c2: True
      then have "?c2 = True" by simp
      then show ?thesis
        unfolding LinkHandler_extractDecorations_def Let_def e1 using True by (simp add: scanner_like_mk)
    next
      case c2: False
      then have e2: "?c2 = False" by simp
      let ?be = "scan_forward not_closing_bracket text (?s + 1) ?e"
      show ?thesis
      proof (cases "find_opening CHR ''('' text (?be + 1) ?e")
        case None
        then show ?thesis
          unfolding LinkHandler_extractDecorations_def Let_def e1 e2 using True by simp
      next
        case (Some p)
        have "\<not> is_delim text p" if "p < ?e"
          using find_opening_char[OF Some that] by (rule not_delim_char) simp
        then show ?thesis
          unfolding LinkHandler_extractDecorations_def Let_def e1 e2 Some using True
          by (auto simp: scanner_like_mk)
      qed
    qed
  qed
qed

lemma image_not_scanner:
  "\<forall>d \<in> set (ImageHandler_extractDecorations n text). \<not> scanner_like text d"
proof (cases "hasValidPosition n")
  case False
  then show ?thesis by (simp add: ImageHandler_extractDecorations_def)
next
  case True
  let ?s = "start_offset n" and ?e = "end_offset n"
  let ?be = "scan_forward not_closing_bracket text (?s + 1 + 1) ?e"
  show ?thesis
  proof (cases "find_opening CHR ''('' text (?be + 1) ?e")
    case None
    then show ?thesis
      unfolding ImageHandler_extractDecorations_def Let_def using True by simp
  next
    case (Some p)
    have "\<not> is_delim text p" if "p < ?e"
      using find_opening_char[OF Some that] by (rule not_delim_char) simp
    then show ?thesis
      unfolding ImageHandler_extractDecorations_def Let_def Some using True
      by (auto simp: scanner_like_mk)
  qed
qed

lemma link_reference_not_scanner:
  "\<forall>d \<in> set (LinkReferenceHandler_extractDecorations n text). \<not> scanner_like text d"
proof (cases "hasValidPosition n")
  case False
  then show ?thesis by (simp add: LinkReferenceHandler_extractDecorations_def)
next
  case True
  let ?s = "start_offset n" and ?e = "end_offset n"
  let ?be = "scan_forward not_closing_bracket text (?s + 1) ?e"
  show ?thesis
  proof (cases "find_opening CHR ''['' text (?be + 1) ?e")
    case None
    then show ?thesis
      unfolding LinkReferenceHandler_extractDecorations_def Let_def using True by simp
  next
    case (Some p)
    have "\<not> is_delim text p" if "p < ?e"
      using find_opening_char[OF Some that] by (rule not_delim_char) simp
    then show ?thesis
      unfolding LinkReferenceHandler_extractDecorations_def Let_def Some using True
      by (auto simp: scanner_like_mk)
  qed
qed

lemma image_reference_not_scanner:
  "\<forall>d \<in> set (ImageReferenceHandler_extractDecorations n text). \<not> scanner_like text d"
proof (cases "hasValidPosition n")
  case False
  then show ?thesis by (simp add: ImageReferenceHandler_extractDecorations_def)
next
  case True
  let ?s = "start_offset n" and ?e = "end_offset n"
  let ?be = "scan_forward not_closing_bracket text (?s + 1 + 1) ?e"
  show ?thesis
  proof (cases "find_opening CHR ''['' text (?be + 1) ?e")
    case None
    then show ?thesis
      unfolding ImageReferenceHandler_extractDecorations_def Let_def using True by simp
  next
    case (Some p)
    have "\<not> is_delim text p" if "p < ?e"
      using find_opening_char[OF Some that] by (rule not_delim_char) simp
    then show ?thesis
      unfolding ImageReferenceHandler_extractDecorations_def Let_def Some using True
      by (auto simp: scanner_like_mk)
  qed
qed

lemma handler_not_scanner:
  assumes "positioned_ok text n" "delimiters_ok text n" "canHandle h n"
  shows "\<forall>d \<in> set (extractDecorations h n text). \<not> scanner_like text d"
proof (cases h)
  case HeadingHandler
  with assms heading_not_scanner[of "text" n] show ?thesis by simp
next
  case StrongHandler
  with assms strong_not_scanner[of "text" n] show ?thesis by simp
next
  case EmphasisHandler
  with emphasis_not_scanner[of n "text"] show ?thesis by simp
next
  case InlineCodeHandler
  with inline_code_not_scanner[of n "text"] show ?thesis by simp
next
  case CodeBlockHandler
  with assms code_block_not_scanner[of "text" n] show ?thesis by simp
next
  case BlockquoteHandler
  with assms blockquote_not_scanner[of "text" n] show ?thesis by simp
next
  case HorizontalRuleHandler
  with assms hr_not_scanner[of "text" n] show ?thesis by simp
next
  case DeleteHandler
  with assms delete_not_scanner[of "text" n] show ?thesis by simp
next
  case LinkHandler
  with link_not_scanner[of n "text"] show ?thesis by simp
next
  case ImageHandler
  with image_not_scanner[of n "text"] show ?thesis by simp
next
  case LinkReferenceHandler
  with link_reference_not_scanner[of n "text"] show ?thesis by simp
next
  case ImageReferenceHandler
  with image_reference_not_scanner[of n "text"] show ?thesis by simp
qed

text \<open>
  The ranges of the tree walk pass through the collector, which keeps one range for each
  \<open>(startPos, endPos, type)\<close> triple; the ranges of the highlight scanner are appended
  after the collector and do not pass through it. The scanner's ranges are distinct among
  themselves. Where no node of the tree has a delimiter that falls on a \<^verbatim>\<open>==\<close>
  (\<open>delimiters_ok\<close>), no handler emits a highlight range or a 2-character hide range
  over a \<^verbatim>\<open>==\<close>, and then no two entries of the output have the same triple.
\<close>

lemma no_duplicates_when_delimiters_ok:
  assumes "\<forall>n \<in> set (visit (parseAST text)). node_ok text n \<and> delimiters_ok text n"
  shows "distinct (map createKey (MarkdownParser_extractDecorations parseAST text))"
proof -
  define st where "st = foldl (visitor text) (new_DecorationCollector, {}) (visit (parseAST text))"
  define tree where "tree = filter (keep_decoration (snd st)) (getAll (fst st))"
  define scan where "scan = HighlightHandler_extractDecorations text"
  have out: "MarkdownParser_extractDecorations parseAST text = tree @ scan"
    by (simp add: MarkdownParser_extractDecorations_def Let_def tree_def scan_def st_def)
  have d1: "distinct (map createKey tree)" unfolding tree_def st_def by (rule tree_part_distinct)
  have d2: "distinct (map createKey scan)"
    unfolding scan_def HighlightHandler_extractDecorations_def
    by (rule highlight_loop_distinct) simp_all
  have s2: "\<forall>d \<in> set scan. scanner_like text d"
    unfolding scan_def HighlightHandler_extractDecorations_def
    by (rule highlight_loop_scanner_like) simp_all
  have s1: "\<forall>d \<in> set tree. \<not> scanner_like text d"
  proof
    fix d assume "d \<in> set tree"
    then have "d \<in> set (ranges (fst (foldl (visitor text) (new_DecorationCollector, {}) (visit (parseAST text)))))"
      by (simp add: tree_def st_def getAll_def)
    from foldl_visitor_ranges[OF this] obtain n h where
      n: "n \<in> set (visit (parseAST text))" "canHandle h n" "d \<in> set (extractDecorations h n text)"
      by (auto simp: new_DecorationCollector_def)
    from assms n(1) have "node_ok text n" "delimiters_ok text n" by blast+
    from node_ok_positioned[OF this(1) n(2)] this(2)
    have "positioned_ok text n" "delimiters_ok text n" .
    from handler_not_scanner[OF this n(2)] n(3) show "\<not> scanner_like text d" by blast
  qed
  have "createKey a \<noteq> createKey b" if "a \<in> set tree" "b \<in> set scan" for a b
  proof
    assume "createKey a = createKey b"
    from scanner_like_key[OF this, of "text"] s1 s2 that show False by blast
  qed
  then have "set (map createKey tree) \<inter> set (map createKey scan) = {}"
    unfolding set_map by blast
  with d1 d2 show ?thesis unfolding out by simp
qed

lemma no_duplicates_when_delimiters_ok_example:
  "list_all (\<lambda>n. node_ok ''~~x~~ ==y=='' n \<and> delimiters_ok ''~~x~~ ==y=='' n)
      (visit (Node ''root'' (Some (Some 0, Some 11)) (Some [
         Node ''paragraph'' (Some (Some 0, Some 11)) (Some [
           Node ''delete'' (Some (Some 0, Some 5)) (Some [Node ''text'' (Some (Some 2, Some 3)) None 0]) 0,
           Node ''text'' (Some (Some 5, Some 11)) None 0]) 0]) 0))
   \<and> distinct (map createKey (MarkdownParser_extractDecorations
         (\<lambda>t. Node ''root'' (Some (Some 0, Some 11)) (Some [
            Node ''paragraph'' (Some (Some 0, Some 11)) (Some [
              Node ''delete'' (Some (Some 0, Some 5)) (Some [Node ''text'' (Some (Some 2, Some 3)) None 0]) 0,
              Node ''text'' (Some (Some 5, Some 11)) None 0]) 0]) 0)
         ''~~x~~ ==y==''))
   \<and> length (MarkdownParser_extractDecorations
         (\<lambda>t. Node ''root'' (Some (Some 0, Some 11)) (Some [
            Node ''paragraph'' (Some (Some 0, Some 11)) (Some [
              Node ''delete'' (Some (Some 0, Some 5)) (Some [Node ''text'' (Some (Some 2, Some 3)) None 0]) 0,
              Node ''text'' (Some (Some 5, Some 11)) None 0]) 0]) 0)
         ''~~x~~ ==y=='') = 6"
proof -
  let ?t = "''~~x~~ ==y==''"
  let ?root = "Node ''root'' (Some (Some 0, Some 11)) (Some [
         Node ''paragraph'' (Some (Some 0, Some 11)) (Some [
           Node ''delete'' (Some (Some 0, Some 5)) (Some [Node ''text'' (Some (Some 2, Some 3)) None 0]) 0,
           Node ''text'' (Some (Some 5, Some 11)) None 0]) 0]) 0"
  have ok: "list_all (\<lambda>n. node_ok ?t n \<and> delimiters_ok ?t n) (visit ?root)"
    by (simp add: node_ok_def positioned_ok_def findHandler_def handlers_def delimiters_ok_def
          hasValidPosition_def start_offset_def end_offset_def is_delim_def charAt_def)
  then have "\<forall>n \<in> set (visit ((\<lambda>t. ?root) ?t)). node_ok ?t n \<and> delimiters_ok ?t n"
    by (simp only: list_all_iff)
  from no_duplicates_when_delimiters_ok[of "\<lambda>t. ?root" ?t, OF this]
  have d: "distinct (map createKey (MarkdownParser_extractDecorations (\<lambda>t. ?root) ?t))" .
  have l: "length (MarkdownParser_extractDecorations (\<lambda>t. ?root) ?t) = 6"
    by code_simp
  from ok d l show ?thesis by simp
qed

text \<open>
  Claim C2 does not hold of the code: nothing removes a scanner range that equals a range
  of the tree walk. It happens when the offsets of the tree are one less than the offsets
  into the text, as they are for a text that starts with a byte order mark, which the
  parser skips before it counts. For the text made of one such unit followed by
  \<^verbatim>\<open>~x==~ y==\<close> the parser reports the strikethrough node \<^verbatim>\<open>~x==~\<close> at offsets
  0 to 5; the delete handler hides the two offsets before the node end, 3 and 4, the
  scanner finds a \<^verbatim>\<open>==\<close> there, and the output holds the hide range from 3 to 5
  twice. The text of the model holds 8-bit units only, so the unit at offset 0 is left
  open here; the result is the same whatever it is.
\<close>

lemma scanner_shift:
  "HighlightHandler_extractDecorations (c # ''~x==~ y=='')
     = [mk Hide 3 5, mk Hide 8 10, mk Highlight 5 8]"
proof -
  let ?t = "c # ''~x==~ y==''"
  have i: "indexOf ?t ''=='' 0 = 3" "indexOf ?t ''=='' (3 + 2) = 8" "indexOf ?t ''=='' (8 + 2) = -1"
    by (simp_all add: indexOf_def clamp_def)
  have f: "first_delim ?t 0 3" "first_delim ?t (3 + 2) 8"
    using indexOf_first_delim[of 0 ?t] indexOf_first_delim[of "3 + 2" ?t] i by simp_all
  have e: "\<forall>j\<ge>8 + 2. \<not> is_delim ?t j" using indexOf_none[of "8 + 2" ?t] i by simp
  have "successive_pairs ?t 0 [(3, 8)]" using f e by simp
  from highlight_loop_pairs[OF _ this, of "[]"] show ?thesis
    by (simp add: HighlightHandler_extractDecorations_def pair_ranges_def)
qed

lemma duplicate_after_offset_shift:
  "MarkdownParser_extractDecorations
     (\<lambda>t. Node ''root'' (Some (Some 0, Some 9)) (Some [Node ''paragraph'' (Some (Some 0, Some 9))
        (Some [Node ''delete'' (Some (Some 0, Some 5)) (Some [Node ''text'' (Some (Some 1, Some 4)) None 0]) 0,
               Node ''text'' (Some (Some 5, Some 9)) None 0]) 0]) 0)
     (c # ''~x==~ y=='')
   = [mk Hide 0 2, mk Hide 3 5, mk Strikethrough 2 3, mk Hide 3 5, mk Hide 8 10, mk Highlight 5 8]"
proof -
  have fh: "findHandler (Node ''root'' p cs d) = None" "findHandler (Node ''paragraph'' p cs d) = None"
    "findHandler (Node ''text'' p cs d) = None" "findHandler (Node ''delete'' p cs d) = Some DeleteHandler"
    for p cs d
    by (simp_all add: findHandler_def handlers_def)
  show ?thesis
    unfolding MarkdownParser_extractDecorations_def Let_def scanner_shift
    by (simp add: visitor_def fh DeleteHandler_extractDecorations_def hasValidPosition_def
          start_offset_def end_offset_def Let_def addAll_def add_def createKey_def mk_def
          new_DecorationCollector_def getAll_def keep_decoration_def track_strong_def)
qed

end
